theory Spec2Isabelle
  imports Main "HOL-Library.Word"
begin

unbundle bit_operations_syntax

section \<open>Data model of checkedthreads\_main.c\<close>

text \<open>
  Machine types, as Valgrind declares them for a 64-bit host: \<open>Addr\<close> and \<open>SizeT\<close> are
  unsigned machine words (64 bits), \<open>UInt\<close> is \<open>unsigned int\<close> (32 bits) and \<open>Int\<close> (here \<open>Int32\<close>) is
  \<open>int\<close> (32 bits, read as two's complement with \<open>sint\<close>). A pointer to a node that
  \<open>VG_(calloc)\<close> returned is a block number; \<open>0\<close> is the null pointer.
\<close>

type_synonym Addr = "64 word"
type_synonym SizeT = "64 word"
type_synonym UInt = "32 word"
type_synonym Int32 = "32 word"
type_synonym ptr = nat

definition MAGIC :: "32 word" where
  "MAGIC = 0x12345678"

definition CONST_MAGIC :: string where
  "CONST_MAGIC = ''Valgrind command''"

text \<open>\<open>sizeof(ct_cmd)\<close>: a 4-byte magic, 16 bytes of constant marker, \<open>MAX_CMD = 128\<close> bytes of payload.\<close>

definition sizeof_ct_cmd :: Addr where
  "sizeof_ct_cmd = 148"

text \<open>The four index macros. Each one first casts the address to \<open>UInt\<close>.\<close>

definition L2_PAGETAB :: "Addr \<Rightarrow> UInt" where
  "L2_PAGETAB addr = (drop_bit 12 (drop_bit 24 (ucast addr :: UInt))) AND 0xfff"

definition L1_PAGETAB :: "Addr \<Rightarrow> UInt" where
  "L1_PAGETAB addr = (drop_bit 24 (ucast addr :: UInt)) AND 0xfff"

definition PAGE :: "Addr \<Rightarrow> UInt" where
  "PAGE addr = (drop_bit 12 (ucast addr :: UInt)) AND 0xfff"

definition BYTE_IN_PAGE :: "Addr \<Rightarrow> UInt" where
  "BYTE_IN_PAGE addr = (ucast addr :: UInt) AND 0xfff"

text \<open>
  The page-table nodes. An array of \<open>2^12\<close> slots is a function of the index that the
  macros compute (always below \<open>2^12\<close>).
\<close>

record ct_page =
  owning_thread :: "UInt \<Rightarrow> 8 word"
  prev_alloc_page :: ptr
  index :: Int32

record ct_pagetab_L1 =
  pages :: "UInt \<Rightarrow> ptr"
  last_alloc_page :: ptr
  prev_alloc_pagetab_L1 :: ptr

record ct_pagetab_L2 =
  pagetabs_L1 :: "UInt \<Rightarrow> ptr"
  last_alloc_pagetab_L1 :: ptr
  prev_alloc_pagetab_L2 :: ptr

record ct_pagetab_L3 =
  pagetabs_L2 :: "UInt \<Rightarrow> ptr"
  last_alloc_pagetab_L2 :: ptr

text \<open>
  The globals of the detector, and the blocks that \<open>VG_(calloc)\<close> has handed out and
  \<open>VG_(free)\<close> has not taken back, one store per node type. \<open>n_calloc\<close> counts the
  calls of \<open>VG_(calloc)\<close>: the next block is numbered \<open>Suc n_calloc\<close>, so a block number
  is never null and never handed out twice.
\<close>

record ct_state =
  clo_print_commands :: bool
  g_ct_last_cmd :: Addr
  g_ct_active :: bool
  g_ct_curr_thread :: Int32
  g_ct_pagetab_L3 :: ct_pagetab_L3
  g_ct_stackbot :: Addr
  g_ct_stackend :: Addr
  heap_L2 :: "ptr \<rightharpoonup> ct_pagetab_L2"
  heap_L1 :: "ptr \<rightharpoonup> ct_pagetab_L1"
  heap_page :: "ptr \<rightharpoonup> ct_page"
  n_calloc :: nat

text \<open>
  What the instrumentation host supplies at an event: the guest memory (the detector only
  reads it, to decode a command), and the running thread's stack metadata.
\<close>

record host =
  mem :: "Addr \<Rightarrow> 8 word"
  thread_get_stack_max :: Addr
  thread_get_stack_size :: SizeT

text \<open>What the detector prints, in order.\<close>

datatype ct_output =
    Print_begin_for
  | Print_end_for
  | Print_iter Int32
  | Print_done Int32
  | Print_stackbot Addr Addr
  | Error_accessed Int32 Addr Addr Int32 Int32
  | Warning_unknown_command
  | StackTrace nat

definition ct_init :: "bool \<Rightarrow> ct_state" where
  "ct_init pc =
     \<lparr> clo_print_commands = pc, g_ct_last_cmd = 0, g_ct_active = False, g_ct_curr_thread = 0,
       g_ct_pagetab_L3 = \<lparr> pagetabs_L2 = (\<lambda>_. 0), last_alloc_pagetab_L2 = 0 \<rparr>,
       g_ct_stackbot = 0, g_ct_stackend = 0,
       heap_L2 = Map.empty, heap_L1 = Map.empty, heap_page = Map.empty, n_calloc = 0 \<rparr>"

section \<open>The Ownership Store\<close>

text \<open>A node fresh from \<open>VG_(calloc)\<close>: every byte zero.\<close>

definition calloc_page :: ct_page where
  "calloc_page = \<lparr> owning_thread = (\<lambda>_. 0), prev_alloc_page = 0, index = 0 \<rparr>"

definition calloc_pagetab_L1 :: ct_pagetab_L1 where
  "calloc_pagetab_L1 = \<lparr> pages = (\<lambda>_. 0), last_alloc_page = 0, prev_alloc_pagetab_L1 = 0 \<rparr>"

definition calloc_pagetab_L2 :: ct_pagetab_L2 where
  "calloc_pagetab_L2 = \<lparr> pagetabs_L1 = (\<lambda>_. 0), last_alloc_pagetab_L1 = 0, prev_alloc_pagetab_L2 = 0 \<rparr>"

text \<open>The three lookup-or-allocate blocks of \<open>ct_get_page\<close>, top down.\<close>

definition get_pagetab_L2 :: "ct_state \<Rightarrow> UInt \<Rightarrow> ct_state \<times> ptr" where
  "get_pagetab_L2 s pt2_index =
     (let pagetab_L3 = g_ct_pagetab_L3 s;
          pagetab_L2 = pagetabs_L2 pagetab_L3 pt2_index
      in if pagetab_L2 = 0 then
           let new = Suc (n_calloc s);
               node = calloc_pagetab_L2 \<lparr> prev_alloc_pagetab_L2 := last_alloc_pagetab_L2 pagetab_L3 \<rparr>
           in (s \<lparr> n_calloc := new,
                   heap_L2 := (heap_L2 s)(new \<mapsto> node),
                   g_ct_pagetab_L3 := pagetab_L3
                     \<lparr> last_alloc_pagetab_L2 := new,
                       pagetabs_L2 := (pagetabs_L2 pagetab_L3)(pt2_index := new) \<rparr> \<rparr>, new)
         else (s, pagetab_L2))"

definition get_pagetab_L1 :: "ct_state \<Rightarrow> ptr \<Rightarrow> UInt \<Rightarrow> (ct_state \<times> ptr) option" where
  "get_pagetab_L1 s pagetab_L2 pt1_index =
     (case heap_L2 s pagetab_L2 of
        None \<Rightarrow> None
      | Some t2 \<Rightarrow>
          let pagetab_L1 = pagetabs_L1 t2 pt1_index
          in if pagetab_L1 = 0 then
               let new = Suc (n_calloc s);
                   node = calloc_pagetab_L1 \<lparr> prev_alloc_pagetab_L1 := last_alloc_pagetab_L1 t2 \<rparr>
               in Some (s \<lparr> n_calloc := new,
                            heap_L1 := (heap_L1 s)(new \<mapsto> node),
                            heap_L2 := (heap_L2 s)(pagetab_L2 \<mapsto> t2
                              \<lparr> last_alloc_pagetab_L1 := new,
                                pagetabs_L1 := (pagetabs_L1 t2)(pt1_index := new) \<rparr>) \<rparr>, new)
             else Some (s, pagetab_L1))"

definition get_page_L1 :: "ct_state \<Rightarrow> ptr \<Rightarrow> UInt \<Rightarrow> (ct_state \<times> ptr) option" where
  "get_page_L1 s pagetab_L1 page_index =
     (case heap_L1 s pagetab_L1 of
        None \<Rightarrow> None
      | Some t1 \<Rightarrow>
          let page = pages t1 page_index
          in if page = 0 then
               let new = Suc (n_calloc s);
                   node = calloc_page \<lparr> prev_alloc_page := last_alloc_page t1 \<rparr>
               in Some (s \<lparr> n_calloc := new,
                            heap_page := (heap_page s)(new \<mapsto> node),
                            heap_L1 := (heap_L1 s)(pagetab_L1 \<mapsto> t1
                              \<lparr> last_alloc_page := new,
                                pages := (pages t1)(page_index := new) \<rparr>) \<rparr>, new)
             else Some (s, page))"

text \<open>
  \<open>ct_get_page\<close>. Reading a field of a node that is not allocated (a dangling pointer)
  has no defined result in C; the model returns \<open>None\<close> there.
\<close>

definition ct_get_page :: "ct_state \<Rightarrow> Addr \<Rightarrow> (ct_state \<times> ptr) option" where
  "ct_get_page s a =
     (case get_pagetab_L2 s (L2_PAGETAB a) of (s2, pagetab_L2) \<Rightarrow>
        (case get_pagetab_L1 s2 pagetab_L2 (L1_PAGETAB a) of
           None \<Rightarrow> None
         | Some (s1, pagetab_L1) \<Rightarrow> get_page_L1 s1 pagetab_L1 (PAGE a)))"

text \<open>
  The owner id of a byte, read the way \<open>ct_on_access\<close> reads it:
  \<open>ct_get_page(addr)->owning_thread[BYTE_IN_PAGE(addr)]\<close>.
\<close>

definition owner_of :: "ct_state \<Rightarrow> Addr \<Rightarrow> 8 word option" where
  "owner_of s a =
     (case ct_get_page s a of
        None \<Rightarrow> None
      | Some (s', page) \<Rightarrow>
          (case heap_page s' page of
             None \<Rightarrow> None
           | Some pg \<Rightarrow> Some (owning_thread pg (BYTE_IN_PAGE a))))"

text \<open>
  The three loops of \<open>ct_clear_pagetab\<close>, innermost first. Each walks an allocation list
  through the \<open>prev_alloc\<close> links and frees the nodes it visits. A walk that reaches a block
  that is not allocated, or that never reaches null, has the value \<open>None\<close>.
\<close>

partial_function (option) free_pages :: "ct_state \<Rightarrow> ptr \<Rightarrow> ct_state option" where
  "free_pages s page =
     (if page = 0 then Some s
      else case heap_page s page of
             None \<Rightarrow> None
           | Some pg \<Rightarrow>
               free_pages (s \<lparr> heap_page := (heap_page s)(page := None) \<rparr>) (prev_alloc_page pg))"

partial_function (option) free_pagetabs_L1 :: "ct_state \<Rightarrow> ptr \<Rightarrow> ct_state option" where
  "free_pagetabs_L1 s pagetab_L1 =
     (if pagetab_L1 = 0 then Some s
      else case heap_L1 s pagetab_L1 of
             None \<Rightarrow> None
           | Some t1 \<Rightarrow>
               Option.bind (free_pages s (last_alloc_page t1))
                 (\<lambda>s'. free_pagetabs_L1 (s' \<lparr> heap_L1 := (heap_L1 s')(pagetab_L1 := None) \<rparr>)
                         (prev_alloc_pagetab_L1 t1)))"

partial_function (option) free_pagetabs_L2 :: "ct_state \<Rightarrow> ptr \<Rightarrow> ct_state option" where
  "free_pagetabs_L2 s pagetab_L2 =
     (if pagetab_L2 = 0 then Some s
      else case heap_L2 s pagetab_L2 of
             None \<Rightarrow> None
           | Some t2 \<Rightarrow>
               Option.bind (free_pagetabs_L1 s (last_alloc_pagetab_L1 t2))
                 (\<lambda>s'. free_pagetabs_L2 (s' \<lparr> heap_L2 := (heap_L2 s')(pagetab_L2 := None) \<rparr>)
                         (prev_alloc_pagetab_L2 t2)))"

definition ct_clear_pagetab :: "ct_state \<Rightarrow> ct_state option" where
  "ct_clear_pagetab s =
     Option.bind (free_pagetabs_L2 s (last_alloc_pagetab_L2 (g_ct_pagetab_L3 s)))
       (\<lambda>s'. Some (s' \<lparr> g_ct_pagetab_L3 :=
                          \<lparr> pagetabs_L2 = (\<lambda>_. 0), last_alloc_pagetab_L2 = 0 \<rparr> \<rparr>))"

text \<open>The number of page-table nodes that are allocated: pages, L1 nodes and L2 nodes.\<close>

definition allocated_nodes :: "ct_state \<Rightarrow> nat" where
  "allocated_nodes s = card (dom (heap_page s)) + card (dom (heap_L1 s)) + card (dom (heap_L2 s))"

section \<open>The Access Monitor\<close>

definition ct_stack_end :: "host \<Rightarrow> Addr" where
  "ct_stack_end h = thread_get_stack_max h - thread_get_stack_size h"

text \<open>\<open>ct_suppress\<close>; it may refresh \<open>g_ct_stackend\<close>, so it returns the state as well.\<close>

definition ct_suppress :: "host \<Rightarrow> ct_state \<Rightarrow> Addr \<Rightarrow> bool \<times> ct_state" where
  "ct_suppress h s p =
     (if g_ct_stackend s \<le> p \<and> p < g_ct_stackbot s then (True, s)
      else
        let s' = (if p < g_ct_stackend s then s \<lparr> g_ct_stackend := ct_stack_end h \<rparr> else s)
        in if p < g_ct_stackend s \<and> g_ct_stackend s' \<le> p \<and> p < g_ct_stackbot s' then (True, s')
           else if g_ct_last_cmd s' \<le> p \<and> p < g_ct_last_cmd s' + sizeof_ct_cmd then (True, s')
           else (False, s'))"

text \<open>The assignment \<open>page->owning_thread[index_in_page] = g_ct_curr_thread\<close>, done when \<open>store\<close> holds.\<close>

definition update_owner :: "bool \<Rightarrow> ct_state \<Rightarrow> ptr \<Rightarrow> ct_page \<Rightarrow> UInt \<Rightarrow> ct_state" where
  "update_owner store s page pg index_in_page =
     (if store then
        s \<lparr> heap_page := (heap_page s)(page \<mapsto>
              pg \<lparr> owning_thread := (owning_thread pg)(index_in_page := ucast (g_ct_curr_thread s)) \<rparr>) \<rparr>
      else s)"

text \<open>
  The loop of \<open>ct_on_access\<close> over the byte addresses \<open>base + i\<close>, in order. The report ends
  the loop (\<open>break\<close>), before the owner of that byte is updated.
\<close>

fun ct_on_access_loop ::
  "host \<Rightarrow> Addr \<Rightarrow> SizeT \<Rightarrow> bool \<Rightarrow> Addr list \<Rightarrow> ct_state \<Rightarrow> (ct_state \<times> ct_output list) option" where
  "ct_on_access_loop h base sz store [] s = Some (s, [])"
| "ct_on_access_loop h base sz store (addr # rest) s =
     (case ct_get_page s addr of
        None \<Rightarrow> None
      | Some (s1, page) \<Rightarrow>
          (case heap_page s1 page of
             None \<Rightarrow> None
           | Some pg \<Rightarrow>
               let index_in_page = BYTE_IN_PAGE addr;
                   owner = owning_thread pg index_in_page
               in if owner \<noteq> 0 \<and> ucast owner \<noteq> g_ct_curr_thread s1 then
                    (case ct_suppress h s1 addr of (suppressed, s2) \<Rightarrow>
                       if \<not> suppressed then
                         Some (s2, [Error_accessed (g_ct_curr_thread s2 - 1) addr base (ucast sz)
                                      (ucast owner - 1),
                                    StackTrace 20])
                       else ct_on_access_loop h base sz store rest
                              (update_owner store s2 page pg index_in_page))
                  else ct_on_access_loop h base sz store rest
                         (update_owner store s1 page pg index_in_page)))"

definition access_range :: "Addr \<Rightarrow> SizeT \<Rightarrow> Addr list" where
  "access_range base sz = map (\<lambda>i. base + of_nat i) [0..<unat sz]"

definition ct_on_access :: "host \<Rightarrow> ct_state \<Rightarrow> Addr \<Rightarrow> SizeT \<Rightarrow> bool \<Rightarrow> (ct_state \<times> ct_output list) option" where
  "ct_on_access h s base sz store = ct_on_access_loop h base sz store (access_range base sz) s"

section \<open>The Command Protocol\<close>

text \<open>
  \<open>ct_str_is\<close> compares the bytes at \<open>variable\<close> with the characters of \<open>constant\<close>, up
  to the constant's terminating NUL, which it does not compare.
\<close>

fun ct_str_is :: "(Addr \<Rightarrow> 8 word) \<Rightarrow> Addr \<Rightarrow> string \<Rightarrow> bool" where
  "ct_str_is m variable [] = True"
| "ct_str_is m variable (c # constant) =
     (if m variable \<noteq> of_char c then False else ct_str_is m (variable + 1) constant)"

text \<open>Loads of 4 and 8 bytes from guest memory, least significant byte first.\<close>

definition load32 :: "(Addr \<Rightarrow> 8 word) \<Rightarrow> Addr \<Rightarrow> 32 word" where
  "load32 m a =
     ucast (m a) OR push_bit 8 (ucast (m (a + 1))) OR push_bit 16 (ucast (m (a + 2)))
       OR push_bit 24 (ucast (m (a + 3)))"

definition load64 :: "(Addr \<Rightarrow> 8 word) \<Rightarrow> Addr \<Rightarrow> 64 word" where
  "load64 m a = ucast (load32 m a) OR push_bit 32 (ucast (load32 m (a + 4)))"

text \<open>The fields of a \<open>ct_cmd\<close> at address \<open>cmd\<close>.\<close>

definition stored_magic :: "host \<Rightarrow> Addr \<Rightarrow> 32 word" where
  "stored_magic h cmd = load32 (mem h) cmd"

definition const_magic :: "Addr \<Rightarrow> Addr" where
  "const_magic cmd = cmd + 4"

definition payload :: "Addr \<Rightarrow> Addr" where
  "payload cmd = cmd + 20"

definition ct_cmd_ptr :: "host \<Rightarrow> Addr \<Rightarrow> Addr \<Rightarrow> Addr" where
  "ct_cmd_ptr h cmd oft = load64 (mem h) (payload cmd + oft)"

definition ct_cmd_int :: "host \<Rightarrow> Addr \<Rightarrow> Addr \<Rightarrow> Int32" where
  "ct_cmd_int h cmd oft = load32 (mem h) (payload cmd + oft)"

definition ct_process_command :: "host \<Rightarrow> ct_state \<Rightarrow> Addr \<Rightarrow> (ct_state \<times> ct_output list) option" where
  "ct_process_command h s cmd =
     (if \<not> ct_str_is (mem h) (const_magic cmd) CONST_MAGIC then Some (s, [])
      else
        Option.bind
          (if ct_str_is (mem h) (payload cmd) ''begin_for'' then
             Some (s, if clo_print_commands s then [Print_begin_for] else [])
           else if ct_str_is (mem h) (payload cmd) ''end_for'' then
             Option.bind (ct_clear_pagetab s)
               (\<lambda>s'. Some (s' \<lparr> g_ct_curr_thread := 0 \<rparr>,
                            if clo_print_commands s then [Print_end_for] else []))
           else if ct_str_is (mem h) (payload cmd) ''iter'' then
             Some (s \<lparr> g_ct_active := True \<rparr>,
                   if clo_print_commands s then [Print_iter (ct_cmd_int h cmd 4)] else [])
           else if ct_str_is (mem h) (payload cmd) ''done'' then
             Some (s \<lparr> g_ct_active := False \<rparr>,
                   if clo_print_commands s then [Print_done (ct_cmd_int h cmd 4)] else [])
           else if ct_str_is (mem h) (payload cmd) ''thrd'' then
             Some (s \<lparr> g_ct_curr_thread := ct_cmd_int h cmd 4 + 1 \<rparr>, [])
           else if ct_str_is (mem h) (payload cmd) ''stackbot'' then
             Some (s \<lparr> g_ct_stackbot := ct_cmd_ptr h cmd 8, g_ct_stackend := ct_stack_end h \<rparr>,
                   if clo_print_commands s
                   then [Print_stackbot (ct_cmd_ptr h cmd 8) (ct_stack_end h)] else [])
           else Some (s, [Warning_unknown_command, StackTrace 20]))
          (\<lambda>(s', out). Some (s' \<lparr> g_ct_last_cmd := cmd \<rparr>, out)))"

section \<open>The hooks\<close>

definition trace_load :: "host \<Rightarrow> ct_state \<Rightarrow> Addr \<Rightarrow> SizeT \<Rightarrow> (ct_state \<times> ct_output list) option" where
  "trace_load h s addr sz =
     (if g_ct_active s then ct_on_access h s addr sz False else Some (s, []))"

definition ct_on_store :: "host \<Rightarrow> ct_state \<Rightarrow> Addr \<Rightarrow> SizeT \<Rightarrow> (ct_state \<times> ct_output list) option" where
  "ct_on_store h s addr sz =
     Option.bind
       (if stored_magic h addr = MAGIC then ct_process_command h s addr else Some (s, []))
       (\<lambda>(s1, out1).
          if g_ct_active s1 then
            Option.bind (ct_on_access h s1 addr sz True) (\<lambda>(s2, out2). Some (s2, out1 @ out2))
          else Some (s1, out1))"

definition trace_store :: "host \<Rightarrow> ct_state \<Rightarrow> Addr \<Rightarrow> SizeT \<Rightarrow> (ct_state \<times> ct_output list) option" where
  "trace_store h s addr sz = ct_on_store h s addr sz"

definition trace_modify :: "host \<Rightarrow> ct_state \<Rightarrow> Addr \<Rightarrow> SizeT \<Rightarrow> (ct_state \<times> ct_output list) option" where
  "trace_modify h s addr sz = ct_on_store h s addr sz"

text \<open>The states the detector can be in: the initial one, and those the hooks lead to.\<close>

inductive reachable :: "ct_state \<Rightarrow> bool" where
  reachable_init: "reachable (ct_init pc)"
| reachable_load: "reachable s \<Longrightarrow> trace_load h s addr sz = Some (s', out) \<Longrightarrow> reachable s'"
| reachable_store: "reachable s \<Longrightarrow> trace_store h s addr sz = Some (s', out) \<Longrightarrow> reachable s'"
| reachable_modify: "reachable s \<Longrightarrow> trace_modify h s addr sz = Some (s', out) \<Longrightarrow> reachable s'"

section \<open>The event stream\<close>

text \<open>
  \<open>flushEvents\<close> emits one helper call per outstanding event: none for an instruction
  fetch, \<open>trace_load\<close>, \<open>trace_store\<close> or \<open>trace_modify\<close> for a data read, write or
  modify. An event of the model carries the host's view (guest memory, stack metadata) at
  the moment the helper runs. \<open>run_events\<close> delivers a list of events in order and
  collects what is printed.
\<close>

datatype event =
    Event_Ir
  | Event_Dr host Addr SizeT
  | Event_Dw host Addr SizeT
  | Event_Dm host Addr SizeT

fun notify :: "ct_state \<Rightarrow> event \<Rightarrow> (ct_state \<times> ct_output list) option" where
  "notify s Event_Ir = Some (s, [])"
| "notify s (Event_Dr h addr sz) = trace_load h s addr sz"
| "notify s (Event_Dw h addr sz) = trace_store h s addr sz"
| "notify s (Event_Dm h addr sz) = trace_modify h s addr sz"

fun run_events :: "ct_state \<Rightarrow> event list \<Rightarrow> (ct_state \<times> ct_output list) option" where
  "run_events s [] = Some (s, [])"
| "run_events s (ev # evs) =
     (case notify s ev of
        None \<Rightarrow> None
      | Some (s1, out1) \<Rightarrow>
          (case run_events s1 evs of
             None \<Rightarrow> None
           | Some (s2, out2) \<Rightarrow> Some (s2, out1 @ out2)))"

section \<open>The wire layout of a command object\<close>

text \<open>
  \<open>bytes_at m a bs\<close>: guest memory \<open>m\<close> holds the bytes \<open>bs\<close> from address \<open>a\<close> on.
  \<open>le32 n\<close>: the four bytes of a 32-bit value, least significant first.
  \<open>tagged_command h cmd name\<close>: the memory at \<open>cmd\<close> starts with the magic \<open>0x12345678\<close>,
  followed by the 16 characters \<open>Valgrind command\<close>, followed by a payload that begins
  with the characters of \<open>name\<close>. The integer argument of a command is the 32-bit value at
  offset 4 of the payload, that is at \<open>cmd + 24\<close>.
\<close>

definition bytes_at :: "(Addr \<Rightarrow> 8 word) \<Rightarrow> Addr \<Rightarrow> 8 word list \<Rightarrow> bool" where
  "bytes_at m a bs \<longleftrightarrow> (\<forall>i<length bs. m (a + of_nat i) = bs ! i)"

definition le32 :: "32 word \<Rightarrow> 8 word list" where
  "le32 n = [ucast n, ucast (drop_bit 8 n), ucast (drop_bit 16 n), ucast (drop_bit 24 n)]"

definition tagged_command :: "host \<Rightarrow> Addr \<Rightarrow> string \<Rightarrow> bool" where
  "tagged_command h cmd name \<longleftrightarrow>
     bytes_at (mem h) cmd
       (le32 0x12345678 @ map of_char ''Valgrind command'' @ map of_char name)"

section \<open>Concrete command objects\<close>

text \<open>
  Guest memory holding the bytes \<open>bs\<close> from address \<open>base\<close> on (zero elsewhere), the bytes
  of a tagged command object (magic, constant marker, opcode name, argument bytes), and a
  host whose memory holds one such object. They are the concrete inputs of the examples.
\<close>

definition mem_at :: "Addr \<Rightarrow> 8 word list \<Rightarrow> Addr \<Rightarrow> 8 word" where
  "mem_at base bs a = (let k = unat (a - base) in if k < length bs then bs ! k else 0)"

definition cmd_object :: "string \<Rightarrow> 8 word list \<Rightarrow> 8 word list" where
  "cmd_object opcode args =
     [0x78, 0x56, 0x34, 0x12] @ map of_char CONST_MAGIC @ map of_char opcode @ args"

definition cmd_host :: "Addr \<Rightarrow> string \<Rightarrow> 8 word list \<Rightarrow> host" where
  "cmd_host base opcode args =
     \<lparr> mem = mem_at base (cmd_object opcode args),
       thread_get_stack_max = 0, thread_get_stack_size = 0 \<rparr>"

definition plain_host :: host where
  "plain_host = \<lparr> mem = (\<lambda>_. 0), thread_get_stack_max = 0, thread_get_stack_size = 0 \<rparr>"

section \<open>Well-formed page tables\<close>

text \<open>
  The shape of the three heaps that every run maintains. \<open>chain h nx p l\<close>: following the
  \<open>prev_alloc\<close> links from \<open>p\<close> visits exactly the nodes \<open>l\<close> and ends at \<open>NULL\<close>.
  \<open>slots_ok\<close>: every non-null slot of a table points to an allocated node one level down,
  and no node is pointed to twice. \<open>chains_ok\<close>: the allocation list of every table holds
  exactly the nodes below it, each once. \<open>ct_wf\<close> says so of all three levels, the single
  \<open>g_ct_pagetab_L3\<close> being the table at the top.
\<close>

fun chain :: "(ptr \<rightharpoonup> 'n) \<Rightarrow> ('n \<Rightarrow> ptr) \<Rightarrow> ptr \<Rightarrow> ptr list \<Rightarrow> bool" where
  "chain h nx p [] = (p = 0)"
| "chain h nx p (x # xs) =
     (p = x \<and> x \<noteq> 0 \<and> (case h x of None \<Rightarrow> False | Some n \<Rightarrow> chain h nx (nx n) xs))"

definition slots_ok :: "('n \<Rightarrow> UInt \<Rightarrow> ptr) \<Rightarrow> (ptr \<rightharpoonup> 'n) \<Rightarrow> ptr set \<Rightarrow> (ptr \<Rightarrow> ptr) \<Rightarrow> bool" where
  "slots_ok sl hp D par \<longleftrightarrow>
     (\<forall>x t. hp x = Some t \<longrightarrow>
        (\<forall>i. sl t i \<noteq> 0 \<longrightarrow> sl t i \<in> D \<and> par (sl t i) = x) \<and>
        (\<forall>i j. sl t i = sl t j \<and> sl t i \<noteq> 0 \<longrightarrow> i = j))"

definition chains_ok ::
  "('n \<Rightarrow> ptr) \<Rightarrow> (ptr \<rightharpoonup> 'n) \<Rightarrow> ('c \<Rightarrow> ptr) \<Rightarrow> (ptr \<rightharpoonup> 'c) \<Rightarrow> (ptr \<Rightarrow> ptr) \<Rightarrow> bool" where
  "chains_ok la hp pv hc par \<longleftrightarrow>
     (\<forall>x t. hp x = Some t \<longrightarrow>
        (\<exists>l. chain hc pv (la t) l \<and> distinct l \<and> set l = {y \<in> dom hc. par y = x})) \<and>
     (\<forall>y \<in> dom hc. par y \<in> dom hp)"

definition root_L3 :: "ct_state \<Rightarrow> ptr \<rightharpoonup> ct_pagetab_L3" where
  "root_L3 s = [0 \<mapsto> g_ct_pagetab_L3 s]"

definition wf_par :: "ct_state \<Rightarrow> (ptr \<Rightarrow> ptr) \<Rightarrow> (ptr \<Rightarrow> ptr) \<Rightarrow> bool" where
  "wf_par s par1 parP \<longleftrightarrow>
     slots_ok pagetabs_L2 (root_L3 s) (dom (heap_L2 s)) (\<lambda>_. 0) \<and>
     chains_ok last_alloc_pagetab_L2 (root_L3 s) prev_alloc_pagetab_L2 (heap_L2 s) (\<lambda>_. 0) \<and>
     slots_ok pagetabs_L1 (heap_L2 s) (dom (heap_L1 s)) par1 \<and>
     chains_ok last_alloc_pagetab_L1 (heap_L2 s) prev_alloc_pagetab_L1 (heap_L1 s) par1 \<and>
     slots_ok pages (heap_L1 s) (dom (heap_page s)) parP \<and>
     chains_ok last_alloc_page (heap_L1 s) prev_alloc_page (heap_page s) parP \<and>
     (\<forall>p \<in> dom (heap_L2 s) \<union> dom (heap_L1 s) \<union> dom (heap_page s). p \<le> n_calloc s)"

definition ct_wf :: "ct_state \<Rightarrow> bool" where
  "ct_wf s \<longleftrightarrow> (\<exists>par1 parP. wf_par s par1 parP)"

text \<open>
  The two halves of the detector state: the control variables, and the page table with its
  heaps. \<open>page_of\<close> and \<open>peek_owner\<close> look an address up without allocating; on a
  well-formed state \<open>owner_of\<close>, which goes through \<open>ct_get_page\<close> as \<open>ct_on_access\<close> does,
  returns \<open>peek_owner\<close>. Two addresses are \<open>aliased\<close> when their low 32 bits agree: the index
  macros see nothing else of an address.
\<close>

definition control :: "ct_state \<Rightarrow> bool \<times> Addr \<times> bool \<times> Int32 \<times> Addr \<times> Addr" where
  "control s = (clo_print_commands s, g_ct_last_cmd s, g_ct_active s, g_ct_curr_thread s,
                g_ct_stackbot s, g_ct_stackend s)"

definition page_of :: "ct_state \<Rightarrow> Addr \<Rightarrow> ptr" where
  "page_of s a =
     (case heap_L2 s (pagetabs_L2 (g_ct_pagetab_L3 s) (L2_PAGETAB a)) of
        None \<Rightarrow> 0
      | Some t2 \<Rightarrow>
          (case heap_L1 s (pagetabs_L1 t2 (L1_PAGETAB a)) of
             None \<Rightarrow> 0
           | Some t1 \<Rightarrow> pages t1 (PAGE a)))"

definition peek_owner :: "ct_state \<Rightarrow> Addr \<Rightarrow> 8 word" where
  "peek_owner s a =
     (case heap_page s (page_of s a) of
        None \<Rightarrow> 0
      | Some pg \<Rightarrow> owning_thread pg (BYTE_IN_PAGE a))"

definition pagetab :: "ct_state \<Rightarrow> ct_pagetab_L3 \<times> (ptr \<rightharpoonup> ct_pagetab_L2) \<times> (ptr \<rightharpoonup> ct_pagetab_L1) \<times> (ptr \<rightharpoonup> ct_page) \<times> nat" where
  "pagetab s = (g_ct_pagetab_L3 s, heap_L2 s, heap_L1 s, heap_page s, n_calloc s)"

definition aliased :: "Addr \<Rightarrow> Addr \<Rightarrow> bool" where
  "aliased a b \<longleftrightarrow> (ucast a :: 32 word) = ucast b"

definition same_ctl :: "ct_state \<Rightarrow> ct_state \<Rightarrow> bool" where
  "same_ctl s s' \<longleftrightarrow>
     clo_print_commands s' = clo_print_commands s \<and> g_ct_last_cmd s' = g_ct_last_cmd s \<and>
     g_ct_active s' = g_ct_active s \<and> g_ct_curr_thread s' = g_ct_curr_thread s \<and>
     g_ct_stackbot s' = g_ct_stackbot s"

text \<open>
  What \<open>ct_on_access\<close> prints and tests. \<open>report\<close> is the error line and its stack trace;
  \<open>conflict\<close> is the test \<open>owner && owner != g_ct_curr_thread\<close>; \<open>suppressed\<close> holds the two
  range tests of \<open>ct_suppress\<close>, on the recorded stack bounds and on the last command object;
  \<open>may_suppress\<close> allows for the one refresh of \<open>g_ct_stackend\<close> that \<open>ct_suppress\<close> may do.
  \<open>seen_owner\<close> is the owner the loop reads at its \<open>j\<close>-th byte: the owner before the access,
  unless an earlier byte of the same store shares its slot. \<open>loop_post\<close> sums up a run of the
  loop that stops at index \<open>k\<close>.
\<close>

definition report :: "ct_state \<Rightarrow> Addr \<Rightarrow> SizeT \<Rightarrow> Addr \<Rightarrow> 8 word \<Rightarrow> ct_output list" where
  "report s base sz addr owner =
     [Error_accessed (g_ct_curr_thread s - 1) addr base (ucast sz) (ucast owner - 1), StackTrace 20]"

definition conflict :: "ct_state \<Rightarrow> 8 word \<Rightarrow> bool" where
  "conflict s owner \<longleftrightarrow> owner \<noteq> 0 \<and> ucast owner \<noteq> g_ct_curr_thread s"

definition suppressed :: "ct_state \<Rightarrow> Addr \<Rightarrow> bool" where
  "suppressed s p \<longleftrightarrow>
     (g_ct_stackend s \<le> p \<and> p < g_ct_stackbot s) \<or>
     (g_ct_last_cmd s \<le> p \<and> p < g_ct_last_cmd s + sizeof_ct_cmd)"

definition may_suppress :: "host \<Rightarrow> ct_state \<Rightarrow> Addr \<Rightarrow> bool" where
  "may_suppress h s p \<longleftrightarrow>
     suppressed s p \<or> suppressed (s \<lparr> g_ct_stackend := ct_stack_end h \<rparr>) p"

definition seen_owner :: "ct_state \<Rightarrow> bool \<Rightarrow> Addr list \<Rightarrow> nat \<Rightarrow> 8 word" where
  "seen_owner s store as j =
     (if store \<and> (\<exists>a\<in>set (take j as). aliased a (as ! j)) then ucast (g_ct_curr_thread s)
      else peek_owner s (as ! j))"

definition loop_post ::
  "host \<Rightarrow> Addr \<Rightarrow> SizeT \<Rightarrow> bool \<Rightarrow> Addr list \<Rightarrow> ct_state \<Rightarrow> ct_state \<Rightarrow> ct_output list \<Rightarrow> nat \<Rightarrow> bool" where
  "loop_post h base sz store as s s' out k \<longleftrightarrow>
     ct_wf s' \<and> same_ctl s s' \<and>
     (g_ct_stackend s' = g_ct_stackend s \<or> g_ct_stackend s' = ct_stack_end h) \<and>
     k \<le> length as \<and>
     (if k = length as then out = []
      else out = report s base sz (as ! k) (peek_owner s' (as ! k)) \<and>
           conflict s (peek_owner s' (as ! k)) \<and> \<not> suppressed s' (as ! k)) \<and>
     (\<forall>j<k. \<not> conflict s (seen_owner s store as j) \<or> may_suppress h s (as ! j)) \<and>
     (\<forall>b. peek_owner s' b =
            (if store \<and> (\<exists>a\<in>set (take k as). aliased a b) then ucast (g_ct_curr_thread s)
             else peek_owner s b))"

text \<open>The six opcode names, and the outputs that are race reports.\<close>

definition opcode_names :: "string list" where
  "opcode_names = [''begin_for'', ''end_for'', ''iter'', ''done'', ''thrd'', ''stackbot'']"

definition is_race :: "ct_output \<Rightarrow> bool" where
  "is_race e = (case e of Error_accessed t a b n ow \<Rightarrow> True | _ \<Rightarrow> False)"

text \<open>
  \<open>no_write_to b ev\<close>: the event is neither a store or modify of a byte that shares the slot
  of \<open>b\<close>, nor the store of a tagged \<open>end_for\<close> command.
\<close>

fun no_write_to :: "Addr \<Rightarrow> event \<Rightarrow> bool" where
  "no_write_to b Event_Ir = True"
| "no_write_to b (Event_Dr h a n) = True"
| "no_write_to b (Event_Dw h a n) =
     (\<not> tagged_command h a ''end_for'' \<and> (\<forall>i<unat n. \<not> aliased (a + of_nat i) b))"
| "no_write_to b (Event_Dm h a n) =
     (\<not> tagged_command h a ''end_for'' \<and> (\<forall>i<unat n. \<not> aliased (a + of_nat i) b))"

section \<open>Lemmas\<close>

lemma chain_frame:
  "chain h nx p l \<Longrightarrow> \<forall>x\<in>set l. map_option nx (h' x) = map_option nx (h x) \<Longrightarrow> chain h' nx p l"
proof (induction l arbitrary: p)
  case Nil
  then show ?case by simp
next
  case (Cons x xs)
  from Cons.prems(1) obtain n where n: "h x = Some n" "p = x" "x \<noteq> 0" "chain h nx (nx n) xs"
    by (auto split: option.splits)
  from Cons.prems(2) n(1) obtain n' where n': "h' x = Some n'" "nx n' = nx n"
    by (cases "h' x") auto
  have "chain h' nx (nx n) xs"
    using Cons.IH [OF n(4)] Cons.prems(2) by simp
  with n n' show ?case by simp
qed

lemma chain_nonzero: "chain h nx p l \<Longrightarrow> 0 \<notin> set l"
  by (induction l arbitrary: p) (auto split: option.splits)

lemma chain_dom: "chain h nx p l \<Longrightarrow> set l \<subseteq> dom h"
  by (induction l arbitrary: p) (auto split: option.splits)

lemma chains_ok_nonzero:
  assumes "chains_ok la hp pv hc par" shows "0 \<notin> dom hc"
proof
  assume z: "0 \<in> dom hc"
  with assms have "par 0 \<in> dom hp" by (auto simp: chains_ok_def)
  then obtain t where t: "hp (par 0) = Some t" by auto
  with assms obtain l where l: "chain hc pv (la t) l" "set l = {y \<in> dom hc. par y = par 0}"
    unfolding chains_ok_def by blast
  from z l(2) have "0 \<in> set l" by simp
  with chain_nonzero [OF l(1)] show False by simp
qed

lemma slots_ok_alloc:
  assumes ok: "slots_ok sl hp (dom hc) par"
    and x: "hp x = Some t"
    and q: "q \<notin> dom hc" "q \<noteq> 0"
    and t': "sl t' = (sl t)(i := q)"
  shows "slots_ok sl (hp(x \<mapsto> t')) (dom (hc(q \<mapsto> c))) (par(q := x))"
  unfolding slots_ok_def
proof (intro allI impI)
  fix y u assume yu: "(hp(x \<mapsto> t')) y = Some u"
  show "(\<forall>i. sl u i \<noteq> 0 \<longrightarrow> sl u i \<in> dom (hc(q \<mapsto> c)) \<and> (par(q := x)) (sl u i) = y) \<and>
        (\<forall>i j. sl u i = sl u j \<and> sl u i \<noteq> 0 \<longrightarrow> i = j)"
  proof (cases "y = x")
    case True
    with yu have u: "u = t'" by simp
    from ok x have old: "\<And>k. sl t k \<noteq> 0 \<Longrightarrow> sl t k \<in> dom hc \<and> par (sl t k) = x"
      and inj: "\<And>k j. sl t k = sl t j \<Longrightarrow> sl t k \<noteq> 0 \<Longrightarrow> k = j"
      unfolding slots_ok_def by blast+
    have neq: "\<And>k. sl t k \<noteq> 0 \<Longrightarrow> sl t k \<noteq> q" using old q(1) by blast
    have a: "((sl t)(i := q)) k \<in> dom (hc(q \<mapsto> c)) \<and> (par(q := x)) (((sl t)(i := q)) k) = x"
      if "((sl t)(i := q)) k \<noteq> 0" for k
    proof (cases "k = i")
      case True
      then show ?thesis by simp
    next
      case False
      with that have nz: "sl t k \<noteq> 0" by simp
      from old [OF nz] neq [OF nz] False show ?thesis by simp
    qed
    have b: "k = j" if "((sl t)(i := q)) k = ((sl t)(i := q)) j" "((sl t)(i := q)) k \<noteq> 0" for k j
    proof (cases "k = i")
      case ki: True
      show ?thesis
      proof (cases "j = i")
        case True
        with ki show ?thesis by simp
      next
        case False
        with that ki have "sl t j = q" by simp
        with neq [of j] q(2) show ?thesis by simp
      qed
    next
      case ki: False
      with that have nz: "sl t k \<noteq> 0" by simp
      show ?thesis
      proof (cases "j = i")
        case True
        with that ki have "sl t k = q" by simp
        with neq [OF nz] show ?thesis by simp
      next
        case False
        with that ki have "sl t k = sl t j" by simp
        from inj [OF this nz] show ?thesis .
      qed
    qed
    show ?thesis unfolding u t' True using a b by blast
  next
    case False
    with yu have hy: "hp y = Some u" by simp
    from ok hy have old: "\<And>k. sl u k \<noteq> 0 \<Longrightarrow> sl u k \<in> dom hc \<and> par (sl u k) = y"
      and inj: "\<And>k j. sl u k = sl u j \<Longrightarrow> sl u k \<noteq> 0 \<Longrightarrow> k = j"
      unfolding slots_ok_def by blast+
    have neq: "\<And>k. sl u k \<noteq> 0 \<Longrightarrow> sl u k \<noteq> q" using old q(1) by blast
    show ?thesis using old inj neq by auto
  qed
qed

lemma chains_ok_alloc:
  assumes ok: "chains_ok la hp pv hc par"
    and x: "hp x = Some t"
    and q: "q \<notin> dom hc" "q \<noteq> 0"
    and t': "la t' = q"
    and c: "pv c = la t"
  shows "chains_ok la (hp(x \<mapsto> t')) pv (hc(q \<mapsto> c)) (par(q := x))"
  unfolding chains_ok_def
proof (intro conjI allI impI ballI)
  fix y u assume yu: "(hp(x \<mapsto> t')) y = Some u"
  show "\<exists>l. chain (hc(q \<mapsto> c)) pv (la u) l \<and> distinct l \<and>
            set l = {z \<in> dom (hc(q \<mapsto> c)). (par(q := x)) z = y}"
  proof (cases "y = x")
    case True
    with yu have u: "u = t'" by simp
    from ok x obtain l where l: "chain hc pv (la t) l" "distinct l" "set l = {z \<in> dom hc. par z = x}"
      unfolding chains_ok_def by blast
    from l(3) q(1) have ql: "q \<notin> set l" by auto
    have "chain (hc(q \<mapsto> c)) pv (la t) l"
      by (rule chain_frame [OF l(1)]) (use ql in auto)
    then have "chain (hc(q \<mapsto> c)) pv (la u) (q # l)"
      using u t' c q(2) by simp
    moreover have "distinct (q # l)" using l(2) ql by simp
    moreover have "set (q # l) = {z \<in> dom (hc(q \<mapsto> c)). (par(q := x)) z = y}"
      using l(3) True q(1) by auto
    ultimately show ?thesis by blast
  next
    case False
    with yu have hy: "hp y = Some u" by simp
    from ok hy obtain l where l: "chain hc pv (la u) l" "distinct l" "set l = {z \<in> dom hc. par z = y}"
      unfolding chains_ok_def by blast
    from l(3) q(1) have ql: "q \<notin> set l" by auto
    have "chain (hc(q \<mapsto> c)) pv (la u) l"
      by (rule chain_frame [OF l(1)]) (use ql in auto)
    moreover have "set l = {z \<in> dom (hc(q \<mapsto> c)). (par(q := x)) z = y}"
      using l(3) False q(1) by auto
    ultimately show ?thesis using l(2) by blast
  qed
next
  fix y assume "y \<in> dom (hc(q \<mapsto> c))"
  then show "(par(q := x)) y \<in> dom (hp(x \<mapsto> t'))"
    using ok unfolding chains_ok_def by auto
qed

lemma slots_ok_new_parent:
  assumes "slots_ok sl hp D par" "\<forall>i. sl c i = 0"
  shows "slots_ok sl (hp(q \<mapsto> c)) D par"
  using assms unfolding slots_ok_def by auto

lemma chains_ok_new_parent:
  assumes ok: "chains_ok la hp pv hc par" and c: "la c = 0" and q: "q \<notin> dom hp"
  shows "chains_ok la (hp(q \<mapsto> c)) pv hc par"
  unfolding chains_ok_def
proof (intro conjI allI impI ballI)
  fix y u assume yu: "(hp(q \<mapsto> c)) y = Some u"
  show "\<exists>l. chain hc pv (la u) l \<and> distinct l \<and> set l = {z \<in> dom hc. par z = y}"
  proof (cases "y = q")
    case True
    have "{z \<in> dom hc. par z = q} = {}" using ok q unfolding chains_ok_def by auto
    with True yu c show ?thesis by (intro exI [of _ "[]"]) simp
  next
    case False
    with yu ok show ?thesis unfolding chains_ok_def by auto
  qed
next
  fix y assume "y \<in> dom hc"
  then show "par y \<in> dom (hp(q \<mapsto> c))" using ok unfolding chains_ok_def by auto
qed

lemma slots_ok_upd_parent:
  assumes "slots_ok sl hp D par" "sl t' = sl t" "hp x = Some t"
  shows "slots_ok sl (hp(x \<mapsto> t')) D par"
  using assms unfolding slots_ok_def by auto

lemma chains_ok_upd_parent:
  assumes "chains_ok la hp pv hc par" "la t' = la t" "hp x = Some t"
  shows "chains_ok la (hp(x \<mapsto> t')) pv hc par"
  using assms unfolding chains_ok_def by auto

lemma chains_ok_upd_child:
  assumes ok: "chains_ok la hp pv hc par" and x: "hc x = Some t" and t': "pv t' = pv t"
  shows "chains_ok la hp pv (hc(x \<mapsto> t')) par"
proof -
  have d: "dom (hc(x \<mapsto> t')) = dom hc" using x by auto
  show ?thesis
    unfolding chains_ok_def d
  proof (intro conjI allI impI)
    fix y u assume "hp y = Some u"
    with ok obtain l where l: "chain hc pv (la u) l" "distinct l" "set l = {z \<in> dom hc. par z = y}"
      unfolding chains_ok_def by blast
    have "chain (hc(x \<mapsto> t')) pv (la u) l"
      by (rule chain_frame [OF l(1)]) (use x t' in auto)
    with l show "\<exists>l. chain (hc(x \<mapsto> t')) pv (la u) l \<and> distinct l \<and> set l = {z \<in> dom hc. par z = y}"
      by blast
  next
    show "\<forall>y\<in>dom hc. par y \<in> dom hp" using ok unfolding chains_ok_def by blast
  qed
qed

lemma wf_parD:
  assumes "wf_par s par1 parP"
  shows "slots_ok pagetabs_L2 (root_L3 s) (dom (heap_L2 s)) (\<lambda>_. 0)"
    and "chains_ok last_alloc_pagetab_L2 (root_L3 s) prev_alloc_pagetab_L2 (heap_L2 s) (\<lambda>_. 0)"
    and "slots_ok pagetabs_L1 (heap_L2 s) (dom (heap_L1 s)) par1"
    and "chains_ok last_alloc_pagetab_L1 (heap_L2 s) prev_alloc_pagetab_L1 (heap_L1 s) par1"
    and "slots_ok pages (heap_L1 s) (dom (heap_page s)) parP"
    and "chains_ok last_alloc_page (heap_L1 s) prev_alloc_page (heap_page s) parP"
    and "\<forall>p \<in> dom (heap_L2 s) \<union> dom (heap_L1 s) \<union> dom (heap_page s). p \<le> n_calloc s"
  using assms unfolding wf_par_def by simp_all

lemma wf_par_nonzero:
  assumes "wf_par s par1 parP"
  shows "heap_L2 s 0 = None" "heap_L1 s 0 = None" "heap_page s 0 = None"
  using chains_ok_nonzero [OF wf_parD(2) [OF assms]] chains_ok_nonzero [OF wf_parD(4) [OF assms]]
    chains_ok_nonzero [OF wf_parD(6) [OF assms]]
  by (simp_all add: domIff)

lemma wf_par_fresh:
  assumes "wf_par s par1 parP"
  shows "heap_L2 s (Suc (n_calloc s)) = None" "heap_L1 s (Suc (n_calloc s)) = None"
    "heap_page s (Suc (n_calloc s)) = None"
proof -
  note n = wf_parD(7) [OF assms]
  have a: "p \<noteq> Suc (n_calloc s)"
    if "p \<in> dom (heap_L2 s) \<union> dom (heap_L1 s) \<union> dom (heap_page s)" for p
    using n that by (metis Suc_n_not_le_n)
  show "heap_L2 s (Suc (n_calloc s)) = None"
    using a [of "Suc (n_calloc s)"] by (cases "heap_L2 s (Suc (n_calloc s))") auto
  show "heap_L1 s (Suc (n_calloc s)) = None"
    using a [of "Suc (n_calloc s)"] by (cases "heap_L1 s (Suc (n_calloc s))") auto
  show "heap_page s (Suc (n_calloc s)) = None"
    using a [of "Suc (n_calloc s)"] by (cases "heap_page s (Suc (n_calloc s))") auto
qed

lemma slots_okD:
  assumes "slots_ok sl hp D par" "hp x = Some t"
  shows "sl t i \<noteq> 0 \<Longrightarrow> sl t i \<in> D" "sl t i \<noteq> 0 \<Longrightarrow> par (sl t i) = x"
    "sl t i = sl t j \<Longrightarrow> sl t i \<noteq> 0 \<Longrightarrow> i = j"
  using assms unfolding slots_ok_def by blast+

lemma wf_par_slot_L3:
  assumes "wf_par s par1 parP" "pagetabs_L2 (g_ct_pagetab_L3 s) i \<noteq> 0"
  shows "pagetabs_L2 (g_ct_pagetab_L3 s) i \<in> dom (heap_L2 s)"
  by (rule slots_okD(1) [OF wf_parD(1) [OF assms(1)] _ assms(2)]) (simp add: root_L3_def)

lemma wf_par_slot_L2:
  assumes "wf_par s par1 parP" "heap_L2 s x = Some t" "pagetabs_L1 t i \<noteq> 0"
  shows "pagetabs_L1 t i \<in> dom (heap_L1 s)" "par1 (pagetabs_L1 t i) = x"
  using slots_okD(1,2) [OF wf_parD(3) [OF assms(1)] assms(2) assms(3)] by blast+

lemma wf_par_slot_L1:
  assumes "wf_par s par1 parP" "heap_L1 s x = Some t" "pages t i \<noteq> 0"
  shows "pages t i \<in> dom (heap_page s)" "parP (pages t i) = x"
  using slots_okD(1,2) [OF wf_parD(5) [OF assms(1)] assms(2) assms(3)] by blast+

lemma bound_step:
  "\<forall>p\<in>A. p \<le> (n::nat) \<Longrightarrow> B \<subseteq> insert (Suc n) A \<Longrightarrow> \<forall>p\<in>B. p \<le> Suc n"
  by (metis insertE le_Suc_eq order_refl subsetD)

lemma get_pagetab_L2_old:
  assumes "pagetabs_L2 (g_ct_pagetab_L3 s) i \<noteq> 0"
  shows "get_pagetab_L2 s i = (s, pagetabs_L2 (g_ct_pagetab_L3 s) i)"
  using assms by (simp add: get_pagetab_L2_def Let_def)

lemma get_pagetab_L2_new:
  assumes "pagetabs_L2 (g_ct_pagetab_L3 s) i = 0"
  shows "get_pagetab_L2 s i =
    (s \<lparr> n_calloc := Suc (n_calloc s),
         heap_L2 := (heap_L2 s)(Suc (n_calloc s) \<mapsto>
            calloc_pagetab_L2 \<lparr> prev_alloc_pagetab_L2 := last_alloc_pagetab_L2 (g_ct_pagetab_L3 s) \<rparr>),
         g_ct_pagetab_L3 := (g_ct_pagetab_L3 s)
            \<lparr> last_alloc_pagetab_L2 := Suc (n_calloc s),
              pagetabs_L2 := (pagetabs_L2 (g_ct_pagetab_L3 s))(i := Suc (n_calloc s)) \<rparr> \<rparr>,
     Suc (n_calloc s))"
  using assms by (simp add: get_pagetab_L2_def Let_def)

lemma get_pagetab_L2_wf:
  assumes wf: "wf_par s par1 parP" and g: "get_pagetab_L2 s i = (s', p)"
  shows "wf_par s' par1 parP"
proof (cases "pagetabs_L2 (g_ct_pagetab_L3 s) i = 0")
  case False
  with g wf show ?thesis by (simp add: get_pagetab_L2_old)
next
  case True
  let ?q = "Suc (n_calloc s)"
  let ?c = "calloc_pagetab_L2 \<lparr> prev_alloc_pagetab_L2 := last_alloc_pagetab_L2 (g_ct_pagetab_L3 s) \<rparr>"
  let ?t' = "(g_ct_pagetab_L3 s) \<lparr> last_alloc_pagetab_L2 := ?q,
              pagetabs_L2 := (pagetabs_L2 (g_ct_pagetab_L3 s))(i := ?q) \<rparr>"
  from g True have s': "s' = s \<lparr> n_calloc := ?q, heap_L2 := (heap_L2 s)(?q \<mapsto> ?c), g_ct_pagetab_L3 := ?t' \<rparr>"
    by (auto simp: get_pagetab_L2_new)
  have fresh: "?q \<notin> dom (heap_L2 s)" using wf_par_fresh(1) [OF wf] by blast
  have r: "root_L3 s 0 = Some (g_ct_pagetab_L3 s)" by (simp add: root_L3_def)
  have r': "root_L3 s' = (root_L3 s)(0 \<mapsto> ?t')" by (simp add: root_L3_def s')
  have p0: "(\<lambda>_. 0::nat)(?q := 0) = (\<lambda>_. 0)" by (rule ext) simp
  have h: "heap_L2 s' = (heap_L2 s)(?q \<mapsto> ?c)" "heap_L1 s' = heap_L1 s"
    "heap_page s' = heap_page s" "n_calloc s' = ?q" by (simp_all add: s')
  note a = wf_parD(1) [OF wf] and b = wf_parD(2) [OF wf] and c = wf_parD(3) [OF wf]
    and d = wf_parD(4) [OF wf] and e = wf_parD(5) [OF wf] and f = wf_parD(6) [OF wf]
    and n = wf_parD(7) [OF wf]
  have a': "slots_ok pagetabs_L2 (root_L3 s') (dom (heap_L2 s')) (\<lambda>_. 0)"
  proof -
    have "slots_ok pagetabs_L2 ((root_L3 s)(0 \<mapsto> ?t')) (dom ((heap_L2 s)(?q \<mapsto> ?c))) ((\<lambda>_. 0)(?q := 0))"
      by (rule slots_ok_alloc [OF a r fresh, where i = i]) simp_all
    then show ?thesis by (simp only: r' h p0)
  qed
  have b': "chains_ok last_alloc_pagetab_L2 (root_L3 s') prev_alloc_pagetab_L2 (heap_L2 s') (\<lambda>_. 0)"
  proof -
    have "chains_ok last_alloc_pagetab_L2 ((root_L3 s)(0 \<mapsto> ?t')) prev_alloc_pagetab_L2
            ((heap_L2 s)(?q \<mapsto> ?c)) ((\<lambda>_. 0)(?q := 0))"
      by (rule chains_ok_alloc [OF b r fresh]) simp_all
    then show ?thesis by (simp only: r' h p0)
  qed
  have c': "slots_ok pagetabs_L1 (heap_L2 s') (dom (heap_L1 s')) par1"
  proof -
    have "slots_ok pagetabs_L1 ((heap_L2 s)(?q \<mapsto> ?c)) (dom (heap_L1 s)) par1"
      by (rule slots_ok_new_parent [OF c]) (simp add: calloc_pagetab_L2_def)
    then show ?thesis by (simp only: h)
  qed
  have d': "chains_ok last_alloc_pagetab_L1 (heap_L2 s') prev_alloc_pagetab_L1 (heap_L1 s') par1"
  proof -
    have "chains_ok last_alloc_pagetab_L1 ((heap_L2 s)(?q \<mapsto> ?c)) prev_alloc_pagetab_L1 (heap_L1 s) par1"
      by (rule chains_ok_new_parent [OF d _ fresh]) (simp add: calloc_pagetab_L2_def)
    then show ?thesis by (simp only: h)
  qed
  have e': "slots_ok pages (heap_L1 s') (dom (heap_page s')) parP" using e by (simp add: h)
  have f': "chains_ok last_alloc_page (heap_L1 s') prev_alloc_page (heap_page s') parP"
    using f by (simp add: h)
  have n': "\<forall>p \<in> dom (heap_L2 s') \<union> dom (heap_L1 s') \<union> dom (heap_page s'). p \<le> n_calloc s'"
    unfolding h by (rule bound_step [OF n]) auto
  show ?thesis unfolding wf_par_def using a' b' c' d' e' f' n' by simp
qed

lemma get_pagetab_L2_live:
  assumes wf: "wf_par s par1 parP" and g: "get_pagetab_L2 s i = (s', p)"
  shows "\<exists>t. heap_L2 s' p = Some t" "pagetabs_L2 (g_ct_pagetab_L3 s') i = p" "p \<noteq> 0"
proof -
  show "\<exists>t. heap_L2 s' p = Some t"
  proof (cases "pagetabs_L2 (g_ct_pagetab_L3 s) i = 0")
    case True
    from g [unfolded get_pagetab_L2_new [OF True]] show ?thesis by auto
  next
    case False
    from g [unfolded get_pagetab_L2_old [OF False]] wf_par_slot_L3 [OF wf False] show ?thesis by auto
  qed
  show "pagetabs_L2 (g_ct_pagetab_L3 s') i = p"
  proof (cases "pagetabs_L2 (g_ct_pagetab_L3 s) i = 0")
    case True
    from g [unfolded get_pagetab_L2_new [OF True]] show ?thesis by auto
  next
    case False
    from g [unfolded get_pagetab_L2_old [OF False]] show ?thesis by auto
  qed
  show "p \<noteq> 0"
  proof (cases "pagetabs_L2 (g_ct_pagetab_L3 s) i = 0")
    case True
    from g [unfolded get_pagetab_L2_new [OF True]] show ?thesis by auto
  next
    case False
    from g [unfolded get_pagetab_L2_old [OF False]] False show ?thesis by auto
  qed
qed

lemma get_pagetab_L2_control:
  assumes "get_pagetab_L2 s i = (s', p)"
  shows "control s' = control s" "heap_L1 s' = heap_L1 s" "heap_page s' = heap_page s"
proof (atomize (full), cases "pagetabs_L2 (g_ct_pagetab_L3 s) i = 0")
  case True
  from assms [unfolded get_pagetab_L2_new [OF True]]
  show "control s' = control s \<and> heap_L1 s' = heap_L1 s \<and> heap_page s' = heap_page s"
    by (auto simp: control_def)
next
  case False
  from assms [unfolded get_pagetab_L2_old [OF False]]
  show "control s' = control s \<and> heap_L1 s' = heap_L1 s \<and> heap_page s' = heap_page s"
    by auto
qed

lemma get_pagetab_L2_page_of:
  assumes wf: "wf_par s par1 parP" and g: "get_pagetab_L2 s i = (s', p)"
  shows "page_of s' b = page_of s b"
proof (cases "pagetabs_L2 (g_ct_pagetab_L3 s) i = 0")
  case False
  from g [unfolded get_pagetab_L2_old [OF False]] show ?thesis by simp
next
  case True
  let ?q = "Suc (n_calloc s)"
  let ?c = "calloc_pagetab_L2 \<lparr> prev_alloc_pagetab_L2 := last_alloc_pagetab_L2 (g_ct_pagetab_L3 s) \<rparr>"
  note z = wf_par_nonzero [OF wf] and fr = wf_par_fresh [OF wf]
  from g [unfolded get_pagetab_L2_new [OF True]]
  have h: "heap_L2 s' = (heap_L2 s)(?q \<mapsto> ?c)" "heap_L1 s' = heap_L1 s"
    "pagetabs_L2 (g_ct_pagetab_L3 s') = (pagetabs_L2 (g_ct_pagetab_L3 s))(i := ?q)"
    by auto
  show ?thesis
  proof (cases "L2_PAGETAB b = i")
    case same: True
    have "page_of s' b = 0"
      unfolding page_of_def h same by (simp add: calloc_pagetab_L2_def z)
    moreover have "page_of s b = 0"
      unfolding page_of_def same True by (simp add: z)
    ultimately show ?thesis by simp
  next
    case False
    have ne: "pagetabs_L2 (g_ct_pagetab_L3 s) (L2_PAGETAB b) \<noteq> ?q"
    proof
      assume e: "pagetabs_L2 (g_ct_pagetab_L3 s) (L2_PAGETAB b) = ?q"
      then have "pagetabs_L2 (g_ct_pagetab_L3 s) (L2_PAGETAB b) \<noteq> 0" by simp
      from wf_par_slot_L3 [OF wf this] e fr(1) show False by auto
    qed
    show ?thesis unfolding page_of_def h using False ne by simp
  qed
qed

lemma ct_wfI: "wf_par s par1 parP \<Longrightarrow> ct_wf s"
  unfolding ct_wf_def by blast

lemma wf_parI:
  assumes "slots_ok pagetabs_L2 (root_L3 s) (dom (heap_L2 s)) (\<lambda>_. 0)"
    and "chains_ok last_alloc_pagetab_L2 (root_L3 s) prev_alloc_pagetab_L2 (heap_L2 s) (\<lambda>_. 0)"
    and "slots_ok pagetabs_L1 (heap_L2 s) (dom (heap_L1 s)) par1"
    and "chains_ok last_alloc_pagetab_L1 (heap_L2 s) prev_alloc_pagetab_L1 (heap_L1 s) par1"
    and "slots_ok pages (heap_L1 s) (dom (heap_page s)) parP"
    and "chains_ok last_alloc_page (heap_L1 s) prev_alloc_page (heap_page s) parP"
    and "\<forall>p \<in> dom (heap_L2 s) \<union> dom (heap_L1 s) \<union> dom (heap_page s). p \<le> n_calloc s"
  shows "wf_par s par1 parP"
  using assms unfolding wf_par_def by simp

lemma get_pagetab_L1_old:
  assumes "heap_L2 s x = Some t" "pagetabs_L1 t i \<noteq> 0"
  shows "get_pagetab_L1 s x i = Some (s, pagetabs_L1 t i)"
  using assms by (simp add: get_pagetab_L1_def Let_def)

lemma get_pagetab_L1_new:
  assumes "heap_L2 s x = Some t" "pagetabs_L1 t i = 0"
  shows "get_pagetab_L1 s x i =
    Some (s \<lparr> n_calloc := Suc (n_calloc s),
         heap_L1 := (heap_L1 s)(Suc (n_calloc s) \<mapsto>
            calloc_pagetab_L1 \<lparr> prev_alloc_pagetab_L1 := last_alloc_pagetab_L1 t \<rparr>),
         heap_L2 := (heap_L2 s)(x \<mapsto> t
            \<lparr> last_alloc_pagetab_L1 := Suc (n_calloc s),
              pagetabs_L1 := (pagetabs_L1 t)(i := Suc (n_calloc s)) \<rparr>) \<rparr>,
     Suc (n_calloc s))"
  using assms by (simp add: get_pagetab_L1_def Let_def)

lemma get_pagetab_L1_wf_new:
  assumes wf: "wf_par s par1 parP" and x: "heap_L2 s x = Some t" and z: "pagetabs_L1 t i = 0"
    and g: "get_pagetab_L1 s x i = Some (s', p)"
  shows "wf_par s' (par1(p := x)) parP"
proof -
  let ?q = "Suc (n_calloc s)"
  let ?c = "calloc_pagetab_L1 \<lparr> prev_alloc_pagetab_L1 := last_alloc_pagetab_L1 t \<rparr>"
  let ?t' = "t \<lparr> last_alloc_pagetab_L1 := ?q, pagetabs_L1 := (pagetabs_L1 t)(i := ?q) \<rparr>"
  from g [unfolded get_pagetab_L1_new [OF x z]]
  have h: "heap_L2 s' = (heap_L2 s)(x \<mapsto> ?t')" "heap_L1 s' = (heap_L1 s)(?q \<mapsto> ?c)"
    "heap_page s' = heap_page s" "n_calloc s' = ?q" "g_ct_pagetab_L3 s' = g_ct_pagetab_L3 s"
    and p: "p = ?q"
    by auto
  have r: "root_L3 s' = root_L3 s" by (simp add: root_L3_def h)
  have fresh: "?q \<notin> dom (heap_L1 s)" using wf_par_fresh(2) [OF wf] by blast
  have dx: "dom ((heap_L2 s)(x \<mapsto> ?t')) = dom (heap_L2 s)" using x by auto
  note a = wf_parD(1) [OF wf] and b = wf_parD(2) [OF wf] and c = wf_parD(3) [OF wf]
    and d = wf_parD(4) [OF wf] and e = wf_parD(5) [OF wf] and f = wf_parD(6) [OF wf]
    and n = wf_parD(7) [OF wf]
  show ?thesis unfolding p
  proof (rule wf_parI)
    show "slots_ok pagetabs_L2 (root_L3 s') (dom (heap_L2 s')) (\<lambda>_. 0)"
      unfolding r h dx by (rule a)
    show "chains_ok last_alloc_pagetab_L2 (root_L3 s') prev_alloc_pagetab_L2 (heap_L2 s') (\<lambda>_. 0)"
      unfolding r h by (rule chains_ok_upd_child [OF b x]) simp
    show "slots_ok pagetabs_L1 (heap_L2 s') (dom (heap_L1 s')) (par1(?q := x))"
      unfolding h by (rule slots_ok_alloc [OF c x fresh, where i = i]) simp_all
    show "chains_ok last_alloc_pagetab_L1 (heap_L2 s') prev_alloc_pagetab_L1 (heap_L1 s') (par1(?q := x))"
      unfolding h by (rule chains_ok_alloc [OF d x fresh]) simp_all
    show "slots_ok pages (heap_L1 s') (dom (heap_page s')) parP"
      unfolding h by (rule slots_ok_new_parent [OF e]) (simp add: calloc_pagetab_L1_def)
    show "chains_ok last_alloc_page (heap_L1 s') prev_alloc_page (heap_page s') parP"
      unfolding h by (rule chains_ok_new_parent [OF f _ fresh]) (simp add: calloc_pagetab_L1_def)
    show "\<forall>p \<in> dom (heap_L2 s') \<union> dom (heap_L1 s') \<union> dom (heap_page s'). p \<le> n_calloc s'"
      unfolding h dx by (rule bound_step [OF n]) auto
  qed
qed

lemma get_pagetab_L1_ct_wf:
  assumes wf: "ct_wf s" and g: "get_pagetab_L1 s x i = Some (s', p)"
  shows "ct_wf s'"
proof -
  from g obtain t where x: "heap_L2 s x = Some t"
    by (cases "heap_L2 s x") (auto simp: get_pagetab_L1_def)
  from wf obtain par1 parP where w: "wf_par s par1 parP" unfolding ct_wf_def by blast
  show ?thesis
  proof (cases "pagetabs_L1 t i = 0")
    case True
    from get_pagetab_L1_wf_new [OF w x True g] show ?thesis by (rule ct_wfI)
  next
    case False
    from g [unfolded get_pagetab_L1_old [OF x False]] wf show ?thesis by auto
  qed
qed

lemma get_pagetab_L1_live:
  assumes wf: "ct_wf s" and x: "heap_L2 s x = Some t"
  shows "\<exists>s' p t' t1. get_pagetab_L1 s x i = Some (s', p) \<and> heap_L2 s' x = Some t' \<and>
           pagetabs_L1 t' i = p \<and> p \<noteq> 0 \<and> heap_L1 s' p = Some t1"
proof (cases "pagetabs_L1 t i = 0")
  case True
  show ?thesis unfolding get_pagetab_L1_new [OF x True] by simp
next
  case False
  from wf obtain par1 parP where w: "wf_par s par1 parP" unfolding ct_wf_def by blast
  from wf_par_slot_L2(1) [OF w x False] obtain t1 where "heap_L1 s (pagetabs_L1 t i) = Some t1"
    by auto
  then show ?thesis unfolding get_pagetab_L1_old [OF x False] using x False by simp
qed

lemma get_pagetab_L1_frame:
  assumes g: "get_pagetab_L1 s x i = Some (s', p)"
  shows "control s' = control s" "g_ct_pagetab_L3 s' = g_ct_pagetab_L3 s" "heap_page s' = heap_page s"
    "y \<noteq> x \<Longrightarrow> heap_L2 s' y = heap_L2 s y"
proof -
  from g obtain t where x: "heap_L2 s x = Some t"
    by (cases "heap_L2 s x") (auto simp: get_pagetab_L1_def)
  have "control s' = control s \<and> g_ct_pagetab_L3 s' = g_ct_pagetab_L3 s \<and> heap_page s' = heap_page s
      \<and> (y \<noteq> x \<longrightarrow> heap_L2 s' y = heap_L2 s y)"
  proof (cases "pagetabs_L1 t i = 0")
    case True
    from g [unfolded get_pagetab_L1_new [OF x True]] show ?thesis by (auto simp: control_def)
  next
    case False
    from g [unfolded get_pagetab_L1_old [OF x False]] show ?thesis by auto
  qed
  then show "control s' = control s" "g_ct_pagetab_L3 s' = g_ct_pagetab_L3 s" "heap_page s' = heap_page s"
    "y \<noteq> x \<Longrightarrow> heap_L2 s' y = heap_L2 s y" by simp_all
qed

lemma get_pagetab_L1_page_of:
  assumes wf: "ct_wf s" and g: "get_pagetab_L1 s x i = Some (s', p)"
  shows "page_of s' b = page_of s b"
proof -
  from g obtain t where x: "heap_L2 s x = Some t"
    by (cases "heap_L2 s x") (auto simp: get_pagetab_L1_def)
  from wf obtain par1 parP where w: "wf_par s par1 parP" unfolding ct_wf_def by blast
  show ?thesis
  proof (cases "pagetabs_L1 t i = 0")
    case False
    from g [unfolded get_pagetab_L1_old [OF x False]] show ?thesis by simp
  next
    case True
    let ?q = "Suc (n_calloc s)"
    let ?c = "calloc_pagetab_L1 \<lparr> prev_alloc_pagetab_L1 := last_alloc_pagetab_L1 t \<rparr>"
    let ?t' = "t \<lparr> last_alloc_pagetab_L1 := ?q, pagetabs_L1 := (pagetabs_L1 t)(i := ?q) \<rparr>"
    note z = wf_par_nonzero [OF w] and fr = wf_par_fresh [OF w]
    from g [unfolded get_pagetab_L1_new [OF x True]]
    have h: "heap_L2 s' = (heap_L2 s)(x \<mapsto> ?t')" "heap_L1 s' = (heap_L1 s)(?q \<mapsto> ?c)"
      "g_ct_pagetab_L3 s' = g_ct_pagetab_L3 s"
      by auto
    let ?p2 = "pagetabs_L2 (g_ct_pagetab_L3 s) (L2_PAGETAB b)"
    have ne: "pagetabs_L1 u k \<noteq> ?q" if "heap_L2 s y = Some u" for y u k
    proof
      assume e: "pagetabs_L1 u k = ?q"
      then have "pagetabs_L1 u k \<noteq> 0" by simp
      from wf_par_slot_L2(1) [OF w that this] e fr(2) show False by auto
    qed
    show ?thesis
    proof (cases "heap_L2 s ?p2")
      case None
      then have "?p2 \<noteq> x" using x by auto
      with None show ?thesis unfolding page_of_def h by simp
    next
      case (Some u)
      show ?thesis
      proof (cases "?p2 = x")
        case px: False
        with Some ne [OF Some] show ?thesis unfolding page_of_def h by simp
      next
        case px: True
        with Some x have u: "u = t" by simp
        show ?thesis
        proof (cases "L1_PAGETAB b = i")
          case same: True
          have "page_of s' b = 0" unfolding page_of_def h px same by (simp add: calloc_pagetab_L1_def)
          moreover have "page_of s b = 0" unfolding page_of_def px same x by (simp add: True z)
          ultimately show ?thesis by simp
        next
          case False
          with ne [OF x] x show ?thesis unfolding page_of_def h px by simp
        qed
      qed
    qed
  qed
qed

lemma get_page_L1_old:
  assumes "heap_L1 s y = Some t" "pages t k \<noteq> 0"
  shows "get_page_L1 s y k = Some (s, pages t k)"
  using assms by (simp add: get_page_L1_def Let_def)

lemma get_page_L1_new:
  assumes "heap_L1 s y = Some t" "pages t k = 0"
  shows "get_page_L1 s y k =
    Some (s \<lparr> n_calloc := Suc (n_calloc s),
         heap_page := (heap_page s)(Suc (n_calloc s) \<mapsto>
            calloc_page \<lparr> prev_alloc_page := last_alloc_page t \<rparr>),
         heap_L1 := (heap_L1 s)(y \<mapsto> t
            \<lparr> last_alloc_page := Suc (n_calloc s),
              pages := (pages t)(k := Suc (n_calloc s)) \<rparr>) \<rparr>,
     Suc (n_calloc s))"
  using assms by (simp add: get_page_L1_def Let_def)

lemma get_page_L1_wf_new:
  assumes wf: "wf_par s par1 parP" and y: "heap_L1 s y = Some t" and z: "pages t k = 0"
    and g: "get_page_L1 s y k = Some (s', p)"
  shows "wf_par s' par1 (parP(p := y))"
proof -
  let ?q = "Suc (n_calloc s)"
  let ?c = "calloc_page \<lparr> prev_alloc_page := last_alloc_page t \<rparr>"
  let ?t' = "t \<lparr> last_alloc_page := ?q, pages := (pages t)(k := ?q) \<rparr>"
  from g [unfolded get_page_L1_new [OF y z]]
  have h: "heap_L1 s' = (heap_L1 s)(y \<mapsto> ?t')" "heap_page s' = (heap_page s)(?q \<mapsto> ?c)"
    "heap_L2 s' = heap_L2 s" "n_calloc s' = ?q" "g_ct_pagetab_L3 s' = g_ct_pagetab_L3 s"
    and p: "p = ?q"
    by auto
  have r: "root_L3 s' = root_L3 s" by (simp add: root_L3_def h)
  have fresh: "?q \<notin> dom (heap_page s)" using wf_par_fresh(3) [OF wf] by blast
  have dy: "dom ((heap_L1 s)(y \<mapsto> ?t')) = dom (heap_L1 s)" using y by auto
  note a = wf_parD(1) [OF wf] and b = wf_parD(2) [OF wf] and c = wf_parD(3) [OF wf]
    and d = wf_parD(4) [OF wf] and e = wf_parD(5) [OF wf] and f = wf_parD(6) [OF wf]
    and n = wf_parD(7) [OF wf]
  show ?thesis unfolding p
  proof (rule wf_parI)
    show "slots_ok pagetabs_L2 (root_L3 s') (dom (heap_L2 s')) (\<lambda>_. 0)"
      unfolding r h by (rule a)
    show "chains_ok last_alloc_pagetab_L2 (root_L3 s') prev_alloc_pagetab_L2 (heap_L2 s') (\<lambda>_. 0)"
      unfolding r h by (rule b)
    show "slots_ok pagetabs_L1 (heap_L2 s') (dom (heap_L1 s')) par1"
      unfolding h dy by (rule c)
    show "chains_ok last_alloc_pagetab_L1 (heap_L2 s') prev_alloc_pagetab_L1 (heap_L1 s') par1"
      unfolding h by (rule chains_ok_upd_child [OF d y]) simp
    show "slots_ok pages (heap_L1 s') (dom (heap_page s')) (parP(?q := y))"
      unfolding h by (rule slots_ok_alloc [OF e y fresh, where i = k]) simp_all
    show "chains_ok last_alloc_page (heap_L1 s') prev_alloc_page (heap_page s') (parP(?q := y))"
      unfolding h by (rule chains_ok_alloc [OF f y fresh]) simp_all
    show "\<forall>p \<in> dom (heap_L2 s') \<union> dom (heap_L1 s') \<union> dom (heap_page s'). p \<le> n_calloc s'"
      unfolding h dy by (rule bound_step [OF n]) auto
  qed
qed

lemma get_page_L1_ct_wf:
  assumes wf: "ct_wf s" and g: "get_page_L1 s y k = Some (s', p)"
  shows "ct_wf s'"
proof -
  from g obtain t where y: "heap_L1 s y = Some t"
    by (cases "heap_L1 s y") (auto simp: get_page_L1_def)
  from wf obtain par1 parP where w: "wf_par s par1 parP" unfolding ct_wf_def by blast
  show ?thesis
  proof (cases "pages t k = 0")
    case True
    from get_page_L1_wf_new [OF w y True g] show ?thesis by (rule ct_wfI)
  next
    case False
    from g [unfolded get_page_L1_old [OF y False]] wf show ?thesis by auto
  qed
qed

lemma get_page_L1_live:
  assumes wf: "ct_wf s" and y: "heap_L1 s y = Some t"
  shows "\<exists>s' p t' pg. get_page_L1 s y k = Some (s', p) \<and> heap_L1 s' y = Some t' \<and>
           pages t' k = p \<and> p \<noteq> 0 \<and> heap_page s' p = Some pg"
proof (cases "pages t k = 0")
  case True
  show ?thesis unfolding get_page_L1_new [OF y True] by simp
next
  case False
  from wf obtain par1 parP where w: "wf_par s par1 parP" unfolding ct_wf_def by blast
  from wf_par_slot_L1(1) [OF w y False] obtain pg where "heap_page s (pages t k) = Some pg"
    by auto
  then show ?thesis unfolding get_page_L1_old [OF y False] using y False by simp
qed

lemma get_page_L1_frame:
  assumes g: "get_page_L1 s y k = Some (s', p)"
  shows "control s' = control s" "g_ct_pagetab_L3 s' = g_ct_pagetab_L3 s" "heap_L2 s' = heap_L2 s"
proof -
  from g obtain t where y: "heap_L1 s y = Some t"
    by (cases "heap_L1 s y") (auto simp: get_page_L1_def)
  have "control s' = control s \<and> g_ct_pagetab_L3 s' = g_ct_pagetab_L3 s \<and> heap_L2 s' = heap_L2 s"
  proof (cases "pages t k = 0")
    case True
    from g [unfolded get_page_L1_new [OF y True]] show ?thesis by (auto simp: control_def)
  next
    case False
    from g [unfolded get_page_L1_old [OF y False]] show ?thesis by auto
  qed
  then show "control s' = control s" "g_ct_pagetab_L3 s' = g_ct_pagetab_L3 s" "heap_L2 s' = heap_L2 s"
    by simp_all
qed

lemma get_page_L1_peek:
  assumes wf: "ct_wf s" and g: "get_page_L1 s y k = Some (s', p)"
  shows "peek_owner s' b = peek_owner s b"
proof -
  from g obtain t where y: "heap_L1 s y = Some t"
    by (cases "heap_L1 s y") (auto simp: get_page_L1_def)
  from wf obtain par1 parP where w: "wf_par s par1 parP" unfolding ct_wf_def by blast
  show ?thesis
  proof (cases "pages t k = 0")
    case False
    from g [unfolded get_page_L1_old [OF y False]] show ?thesis by simp
  next
    case True
    let ?q = "Suc (n_calloc s)"
    let ?c = "calloc_page \<lparr> prev_alloc_page := last_alloc_page t \<rparr>"
    let ?t' = "t \<lparr> last_alloc_page := ?q, pages := (pages t)(k := ?q) \<rparr>"
    note z = wf_par_nonzero [OF w] and fr = wf_par_fresh [OF w]
    from g [unfolded get_page_L1_new [OF y True]]
    have h: "heap_L1 s' = (heap_L1 s)(y \<mapsto> ?t')" "heap_page s' = (heap_page s)(?q \<mapsto> ?c)"
      "g_ct_pagetab_L3 s' = g_ct_pagetab_L3 s" "heap_L2 s' = heap_L2 s"
      by auto
    have ne: "pages u j \<noteq> ?q" if "heap_L1 s x = Some u" for x u j
    proof
      assume e: "pages u j = ?q"
      then have "pages u j \<noteq> 0" by simp
      from wf_par_slot_L1(1) [OF w that this] e fr(3) show False by auto
    qed
    show ?thesis
    proof (cases "heap_L2 s (pagetabs_L2 (g_ct_pagetab_L3 s) (L2_PAGETAB b))")
      case None
      then show ?thesis unfolding peek_owner_def page_of_def h by (simp add: z fr)
    next
      case (Some t2)
      let ?p1 = "pagetabs_L1 t2 (L1_PAGETAB b)"
      show ?thesis
      proof (cases "heap_L1 s ?p1")
        case None
        then have "?p1 \<noteq> y" using y by auto
        with None Some show ?thesis unfolding peek_owner_def page_of_def h by (simp add: z fr)
      next
        case u: (Some u)
        show ?thesis
        proof (cases "?p1 = y")
          case py: False
          with Some u ne [OF u] show ?thesis unfolding peek_owner_def page_of_def h by simp
        next
          case py: True
          with u y have ut: "u = t" by simp
          show ?thesis
          proof (cases "PAGE b = k")
            case same: True
            have "peek_owner s' b = 0"
              unfolding peek_owner_def page_of_def h using Some py same by (simp add: calloc_page_def)
            moreover have "peek_owner s b = 0"
              unfolding peek_owner_def page_of_def using Some py same y True by (simp add: z)
            ultimately show ?thesis by simp
          next
            case False
            with Some py ne [OF y] y show ?thesis unfolding peek_owner_def page_of_def h by simp
          qed
        qed
      qed
    qed
  qed
qed

lemma get_pagetab_L2_ct_wf:
  assumes "ct_wf s" "get_pagetab_L2 s i = (s', p)"
  shows "ct_wf s'"
  using assms get_pagetab_L2_wf unfolding ct_wf_def by blast

lemma peek_owner_page_of:
  "page_of s' = page_of s \<Longrightarrow> heap_page s' = heap_page s \<Longrightarrow> peek_owner s' = peek_owner s"
  unfolding peek_owner_def by (rule ext) simp

lemma ct_get_page_spec:
  assumes wf: "ct_wf s"
  shows "\<exists>s' p pg. ct_get_page s a = Some (s', p) \<and> ct_wf s' \<and> control s' = control s \<and>
           page_of s' a = p \<and> p \<noteq> 0 \<and> heap_page s' p = Some pg \<and>
           (\<forall>b. peek_owner s' b = peek_owner s b)"
proof -
  obtain s2 p2 where g2: "get_pagetab_L2 s (L2_PAGETAB a) = (s2, p2)" by force
  from wf obtain par1 parP where w: "wf_par s par1 parP" unfolding ct_wf_def by blast
  note wf2 = get_pagetab_L2_ct_wf [OF wf g2]
  from get_pagetab_L2_live [OF w g2] obtain t2 where
    l2: "heap_L2 s2 p2 = Some t2" "pagetabs_L2 (g_ct_pagetab_L3 s2) (L2_PAGETAB a) = p2" by blast
  note c2 = get_pagetab_L2_control [OF g2]
  have po2: "page_of s2 = page_of s" by (rule ext) (rule get_pagetab_L2_page_of [OF w g2])
  have pk2: "peek_owner s2 = peek_owner s" by (rule peek_owner_page_of [OF po2 c2(3)])
  from get_pagetab_L1_live [OF wf2 l2(1), of "L1_PAGETAB a"] obtain s1 p1 t2' t1 where
    g1: "get_pagetab_L1 s2 p2 (L1_PAGETAB a) = Some (s1, p1)" and
    l1: "heap_L2 s1 p2 = Some t2'" "pagetabs_L1 t2' (L1_PAGETAB a) = p1" "heap_L1 s1 p1 = Some t1"
    by blast
  note wf1 = get_pagetab_L1_ct_wf [OF wf2 g1]
  note c1 = get_pagetab_L1_frame(1-3) [OF g1]
  have po1: "page_of s1 = page_of s2" by (rule ext) (rule get_pagetab_L1_page_of [OF wf2 g1])
  have pk1: "peek_owner s1 = peek_owner s2" by (rule peek_owner_page_of [OF po1 c1(3)])
  from get_page_L1_live [OF wf1 l1(3), of "PAGE a"] obtain s' p t1' pg where
    g: "get_page_L1 s1 p1 (PAGE a) = Some (s', p)" and
    l: "heap_L1 s' p1 = Some t1'" "pages t1' (PAGE a) = p" "p \<noteq> 0" "heap_page s' p = Some pg"
    by blast
  note wf' = get_page_L1_ct_wf [OF wf1 g]
  note c = get_page_L1_frame [OF g]
  have pk: "peek_owner s' b = peek_owner s b" for b
    using get_page_L1_peek [OF wf1 g, of b] pk1 pk2 by simp
  have r: "ct_get_page s a = Some (s', p)"
    unfolding ct_get_page_def g2 by (simp add: g1 g)
  have po: "page_of s' a = p"
    using l2(2) l1(1,2) l(1,2) c(2,3) c1(2) by (simp add: page_of_def)
  have ctl: "control s' = control s" using c(1) c1(1) c2(1) by simp
  show ?thesis using r wf' ctl po l(3,4) pk by blast
qed

lemma fff_mask: "(0xfff :: 32 word) = mask 12"
  by (simp add: mask_eq_exp_minus_1)

lemma bit_BYTE_IN_PAGE: "bit (BYTE_IN_PAGE a) n \<longleftrightarrow> n < 12 \<and> bit a n"
  unfolding BYTE_IN_PAGE_def fff_mask by (auto simp: bit_simps)

lemma bit_PAGE: "bit (PAGE a) n \<longleftrightarrow> n < 12 \<and> bit a (n + 12)"
  unfolding PAGE_def fff_mask by (auto simp: bit_simps add.commute)

lemma bit_L1_PAGETAB: "bit (L1_PAGETAB a) n \<longleftrightarrow> n < 8 \<and> bit a (n + 24)"
  unfolding L1_PAGETAB_def fff_mask by (auto simp: bit_simps add.commute)

lemma L2_PAGETAB_zero: "L2_PAGETAB a = 0"
  unfolding L2_PAGETAB_def by (simp add: drop_bit_drop_bit)

lemma same_slot_iff:
  "L1_PAGETAB a = L1_PAGETAB b \<and> PAGE a = PAGE b \<and> BYTE_IN_PAGE a = BYTE_IN_PAGE b
     \<longleftrightarrow> (ucast a :: 32 word) = ucast b"
proof
  assume e: "(ucast a :: 32 word) = ucast b"
  then show "L1_PAGETAB a = L1_PAGETAB b \<and> PAGE a = PAGE b \<and> BYTE_IN_PAGE a = BYTE_IN_PAGE b"
    by (simp add: L1_PAGETAB_def PAGE_def BYTE_IN_PAGE_def)
next
  assume h: "L1_PAGETAB a = L1_PAGETAB b \<and> PAGE a = PAGE b \<and> BYTE_IN_PAGE a = BYTE_IN_PAGE b"
  show "(ucast a :: 32 word) = ucast b"
  proof (rule bit_word_eqI)
    fix n assume n: "n < LENGTH(32)"
    consider "n < 12" | "12 \<le> n" "n < 24" | "24 \<le> n" "n < 32" using n by fastforce
    then have "bit a n = bit b n"
    proof cases
      case 1
      from h have "bit (BYTE_IN_PAGE a) n = bit (BYTE_IN_PAGE b) n" by simp
      with 1 show ?thesis by (simp add: bit_BYTE_IN_PAGE)
    next
      case 2
      from h have "bit (PAGE a) (n - 12) = bit (PAGE b) (n - 12)" by simp
      moreover from 2 have "n - 12 < 12" "n - 12 + 12 = n" by simp_all
      ultimately show ?thesis by (simp add: bit_PAGE)
    next
      case 3
      from h have "bit (L1_PAGETAB a) (n - 24) = bit (L1_PAGETAB b) (n - 24)" by simp
      moreover from 3 have "n - 24 < 8" "n - 24 + 24 = n" by simp_all
      ultimately show ?thesis by (simp add: bit_L1_PAGETAB)
    qed
    with n show "bit (ucast a :: 32 word) n = bit (ucast b :: 32 word) n"
      by (simp add: bit_simps)
  qed
qed

lemma pagetab_eq:
  assumes "pagetab s' = pagetab s"
  shows "ct_wf s' = ct_wf s" "page_of s' = page_of s" "peek_owner s' = peek_owner s"
    "heap_page s' = heap_page s"
proof -
  from assms have e: "g_ct_pagetab_L3 s' = g_ct_pagetab_L3 s" "heap_L2 s' = heap_L2 s"
    "heap_L1 s' = heap_L1 s" "heap_page s' = heap_page s" "n_calloc s' = n_calloc s"
    by (simp_all add: pagetab_def)
  show "ct_wf s' = ct_wf s" unfolding ct_wf_def wf_par_def root_L3_def e ..
  show po: "page_of s' = page_of s" by (rule ext) (simp add: page_of_def e cong: option.case_cong)
  show "peek_owner s' = peek_owner s" by (rule ext) (simp add: peek_owner_def po e)
  show "heap_page s' = heap_page s" by (rule e)
qed

lemma page_of_inj:
  assumes wf: "ct_wf s" and e: "page_of s a = page_of s b" and nz: "page_of s a \<noteq> 0"
  shows "L1_PAGETAB a = L1_PAGETAB b \<and> PAGE a = PAGE b"
proof -
  from wf obtain par1 parP where w: "wf_par s par1 parP" unfolding ct_wf_def by blast
  note z = wf_par_nonzero [OF w]
  let ?p2 = "pagetabs_L2 (g_ct_pagetab_L3 s) 0"
  from nz obtain t2 where t2: "heap_L2 s ?p2 = Some t2"
    by (cases "heap_L2 s ?p2") (auto simp: page_of_def L2_PAGETAB_zero)
  from nz t2 obtain ta where ta: "heap_L1 s (pagetabs_L1 t2 (L1_PAGETAB a)) = Some ta"
    by (cases "heap_L1 s (pagetabs_L1 t2 (L1_PAGETAB a))") (auto simp: page_of_def L2_PAGETAB_zero)
  from t2 ta have pa: "page_of s a = pages ta (PAGE a)" by (simp add: page_of_def L2_PAGETAB_zero)
  from nz e have nzb: "page_of s b \<noteq> 0" by simp
  from nzb t2 obtain tb where tb: "heap_L1 s (pagetabs_L1 t2 (L1_PAGETAB b)) = Some tb"
    by (cases "heap_L1 s (pagetabs_L1 t2 (L1_PAGETAB b))") (auto simp: page_of_def L2_PAGETAB_zero)
  from t2 tb have pb: "page_of s b = pages tb (PAGE b)" by (simp add: page_of_def L2_PAGETAB_zero)
  from nz pa have nza: "pages ta (PAGE a) \<noteq> 0" by simp
  from nzb pb have nzb': "pages tb (PAGE b) \<noteq> 0" by simp
  have "parP (pages ta (PAGE a)) = pagetabs_L1 t2 (L1_PAGETAB a)"
    by (rule wf_par_slot_L1(2) [OF w ta nza])
  moreover have "parP (pages tb (PAGE b)) = pagetabs_L1 t2 (L1_PAGETAB b)"
    by (rule wf_par_slot_L1(2) [OF w tb nzb'])
  ultimately have p1: "pagetabs_L1 t2 (L1_PAGETAB a) = pagetabs_L1 t2 (L1_PAGETAB b)"
    using e pa pb by simp
  have p1nz: "pagetabs_L1 t2 (L1_PAGETAB a) \<noteq> 0"
  proof
    assume "pagetabs_L1 t2 (L1_PAGETAB a) = 0"
    with ta z(2) show False by simp
  qed
  have i1: "L1_PAGETAB a = L1_PAGETAB b"
    by (rule slots_okD(3) [OF wf_parD(3) [OF w] t2 p1 p1nz])
  from ta tb p1 have tab: "ta = tb" by simp
  from e pa pb tab have "pages ta (PAGE a) = pages ta (PAGE b)" by simp
  from slots_okD(3) [OF wf_parD(5) [OF w] ta this nza] i1 show ?thesis by simp
qed

lemma page_of_alias:
  assumes "aliased a b" shows "page_of s a = page_of s b" "BYTE_IN_PAGE a = BYTE_IN_PAGE b"
proof -
  from assms same_slot_iff [of a b]
  have e: "L1_PAGETAB a = L1_PAGETAB b" "PAGE a = PAGE b" "BYTE_IN_PAGE a = BYTE_IN_PAGE b"
    by (simp_all add: aliased_def)
  show "page_of s a = page_of s b" unfolding page_of_def e L2_PAGETAB_zero ..
  show "BYTE_IN_PAGE a = BYTE_IN_PAGE b" by (rule e)
qed

lemma update_owner_control: "control (update_owner store s p pg i) = control s"
  by (simp add: update_owner_def control_def)

lemma update_owner_spec:
  assumes wf: "ct_wf s" and p: "page_of s a = p" "p \<noteq> 0" and pg: "heap_page s p = Some pg"
  shows "ct_wf (update_owner store s p pg (BYTE_IN_PAGE a))"
    and "peek_owner (update_owner store s p pg (BYTE_IN_PAGE a)) b =
           (if store \<and> aliased a b then ucast (g_ct_curr_thread s) else peek_owner s b)"
proof -
  let ?v = "ucast (g_ct_curr_thread s) :: 8 word"
  let ?pg' = "pg \<lparr> owning_thread := (owning_thread pg)(BYTE_IN_PAGE a := ?v) \<rparr>"
  let ?s' = "s \<lparr> heap_page := (heap_page s)(p \<mapsto> ?pg') \<rparr>"
  have u: "update_owner store s p pg (BYTE_IN_PAGE a) = (if store then ?s' else s)"
    by (simp add: update_owner_def)
  from wf obtain par1 parP where w: "wf_par s par1 parP" unfolding ct_wf_def by blast
  have d: "dom ((heap_page s)(p \<mapsto> ?pg')) = dom (heap_page s)" using pg by auto
  have h: "heap_L2 ?s' = heap_L2 s" "heap_L1 ?s' = heap_L1 s" "root_L3 ?s' = root_L3 s"
    "heap_page ?s' = (heap_page s)(p \<mapsto> ?pg')" "n_calloc ?s' = n_calloc s"
    by (simp_all add: root_L3_def)
  have "wf_par ?s' par1 parP"
  proof (rule wf_parI)
    show "slots_ok pagetabs_L2 (root_L3 ?s') (dom (heap_L2 ?s')) (\<lambda>_. 0)"
      unfolding h by (rule wf_parD(1) [OF w])
    show "chains_ok last_alloc_pagetab_L2 (root_L3 ?s') prev_alloc_pagetab_L2 (heap_L2 ?s') (\<lambda>_. 0)"
      unfolding h by (rule wf_parD(2) [OF w])
    show "slots_ok pagetabs_L1 (heap_L2 ?s') (dom (heap_L1 ?s')) par1"
      unfolding h by (rule wf_parD(3) [OF w])
    show "chains_ok last_alloc_pagetab_L1 (heap_L2 ?s') prev_alloc_pagetab_L1 (heap_L1 ?s') par1"
      unfolding h by (rule wf_parD(4) [OF w])
    show "slots_ok pages (heap_L1 ?s') (dom (heap_page ?s')) parP"
      unfolding h d by (rule wf_parD(5) [OF w])
    show "chains_ok last_alloc_page (heap_L1 ?s') prev_alloc_page (heap_page ?s') parP"
      unfolding h by (rule chains_ok_upd_child [OF wf_parD(6) [OF w] pg]) simp
    show "\<forall>p \<in> dom (heap_L2 ?s') \<union> dom (heap_L1 ?s') \<union> dom (heap_page ?s'). p \<le> n_calloc ?s'"
      unfolding h d by (rule wf_parD(7) [OF w])
  qed
  then have "ct_wf ?s'" by (rule ct_wfI)
  with wf show "ct_wf (update_owner store s p pg (BYTE_IN_PAGE a))" unfolding u by simp
  have po: "page_of ?s' b = page_of s b" by (simp add: page_of_def cong: option.case_cong)
  have pk: "peek_owner ?s' b = (if aliased a b then ?v else peek_owner s b)"
  proof (cases "page_of s b = p")
    case False
    then have "\<not> aliased a b" using page_of_alias(1) [of a b s] p(1) by auto
    with False show ?thesis unfolding peek_owner_def po by simp
  next
    case True
    with p have e: "page_of s a = page_of s b" and nz: "page_of s a \<noteq> 0" by simp_all
    from page_of_inj [OF wf e nz] have al: "aliased a b \<longleftrightarrow> BYTE_IN_PAGE a = BYTE_IN_PAGE b"
      using same_slot_iff [of a b] by (auto simp: aliased_def)
    show ?thesis unfolding peek_owner_def po True al using pg by (auto simp: True)
  qed
  show "peek_owner (update_owner store s p pg (BYTE_IN_PAGE a)) b =
           (if store \<and> aliased a b then ucast (g_ct_curr_thread s) else peek_owner s b)"
    unfolding u using pk by simp
qed

lemma ct_suppress_state:
  assumes "ct_suppress h s a = (r, s')"
  shows "s' = s \<or> s' = s \<lparr> g_ct_stackend := ct_stack_end h \<rparr>"
  using assms by (auto simp: ct_suppress_def Let_def split: if_splits)

lemma ct_suppress_pagetab:
  assumes "ct_suppress h s a = (r, s')"
  shows "pagetab s' = pagetab s"
  using ct_suppress_state [OF assms] by (auto simp: pagetab_def)

lemma same_ctl_refl: "same_ctl s s"
  by (simp add: same_ctl_def)

lemma same_ctl_trans: "same_ctl s s1 \<Longrightarrow> same_ctl s1 s2 \<Longrightarrow> same_ctl s s2"
  by (simp add: same_ctl_def)

lemma control_same_ctl: "control s' = control s \<Longrightarrow> same_ctl s s'"
  by (simp add: control_def same_ctl_def)

lemma ct_suppress_same_ctl:
  assumes "ct_suppress h s a = (r, s')" shows "same_ctl s s'"
  using ct_suppress_state [OF assms] by (auto simp: same_ctl_def)

lemma update_owner_same_ctl: "same_ctl s (update_owner store s p pg i)"
  by (rule control_same_ctl) (rule update_owner_control)

lemma ct_suppress_result:
  assumes "ct_suppress h s p = (r, s')"
  shows "r \<longleftrightarrow> suppressed s' p"
proof -
  have c: "g_ct_last_cmd s' = g_ct_last_cmd s" "g_ct_stackbot s' = g_ct_stackbot s"
    using ct_suppress_same_ctl [OF assms] by (simp_all add: same_ctl_def)
  show ?thesis
  proof (cases "g_ct_stackend s \<le> p \<and> p < g_ct_stackbot s")
    case True
    with assms show ?thesis by (auto simp: ct_suppress_def suppressed_def)
  next
    case False
    show ?thesis
    proof (cases "p < g_ct_stackend s")
      case True
      with False assms show ?thesis
        by (auto simp: ct_suppress_def suppressed_def Let_def split: if_splits)
    next
      case nl: False
      with False assms show ?thesis
        by (auto simp: ct_suppress_def suppressed_def Let_def split: if_splits)
    qed
  qed
qed

lemma ct_suppress_stackend:
  assumes "ct_suppress h s p = (r, s')"
  shows "g_ct_stackend s' = g_ct_stackend s \<or> g_ct_stackend s' = ct_stack_end h"
  using ct_suppress_state [OF assms] by auto

lemma suppressed_cong:
  assumes "same_ctl s s'" "g_ct_stackend s' = g_ct_stackend s"
  shows "suppressed s' p = suppressed s p"
  using assms by (simp add: suppressed_def same_ctl_def)

lemma may_suppress_mono:
  assumes c: "same_ctl s s'" and e: "g_ct_stackend s' = g_ct_stackend s \<or> g_ct_stackend s' = ct_stack_end h"
    and m: "may_suppress h s' p"
  shows "may_suppress h s p"
  using assms by (auto simp: may_suppress_def suppressed_def same_ctl_def)

lemma suppressed_may:
  assumes c: "same_ctl s s'" and e: "g_ct_stackend s' = g_ct_stackend s \<or> g_ct_stackend s' = ct_stack_end h"
    and m: "suppressed s' p"
  shows "may_suppress h s p"
  using assms by (auto simp: may_suppress_def suppressed_def same_ctl_def)

lemma loop_post_Nil: "ct_wf s \<Longrightarrow> loop_post h base sz store [] s s [] 0"
  by (simp add: loop_post_def same_ctl_refl)

lemma loop_post_stop:
  assumes "ct_wf s2" "same_ctl s s2" "peek_owner s2 = peek_owner s" "conflict s (peek_owner s a)"
    "g_ct_stackend s2 = g_ct_stackend s \<or> g_ct_stackend s2 = ct_stack_end h"
    "\<not> suppressed s2 a"
  shows "loop_post h base sz store (a # rest) s s2 (report s base sz a (peek_owner s a)) 0"
  using assms by (simp add: loop_post_def)

lemma loop_post_Cons:
  assumes wf: "ct_wf s2" and ctl: "same_ctl s s2" and pk: "peek_owner s2 = peek_owner s"
    and se: "g_ct_stackend s2 = g_ct_stackend s \<or> g_ct_stackend s2 = ct_stack_end h"
    and first: "\<not> conflict s (peek_owner s a) \<or> may_suppress h s a"
    and p: "page_of s2 a = p" "p \<noteq> 0" "heap_page s2 p = Some pg"
    and post: "loop_post h base sz store rest (update_owner store s2 p pg (BYTE_IN_PAGE a)) s' out k"
  shows "loop_post h base sz store (a # rest) s s' out (Suc k)"
proof -
  let ?s3 = "update_owner store s2 p pg (BYTE_IN_PAGE a)"
  have c3: "same_ctl s ?s3" by (rule same_ctl_trans [OF ctl update_owner_same_ctl])
  then have cur: "g_ct_curr_thread ?s3 = g_ct_curr_thread s" "g_ct_curr_thread s2 = g_ct_curr_thread s"
    using ctl by (simp_all add: same_ctl_def)
  have se3: "g_ct_stackend ?s3 = g_ct_stackend s \<or> g_ct_stackend ?s3 = ct_stack_end h"
    using se by (simp add: update_owner_def)
  have pk3: "peek_owner ?s3 b =
      (if store \<and> aliased a b then ucast (g_ct_curr_thread s) else peek_owner s b)" for b
    using update_owner_spec(2) [OF wf p, of store b] by (simp add: pk cur)
  from post have a: "ct_wf s'" and b: "same_ctl ?s3 s'" and c: "k \<le> length rest"
    and se': "g_ct_stackend s' = g_ct_stackend ?s3 \<or> g_ct_stackend s' = ct_stack_end h"
    and d: "if k = length rest then out = []
      else out = report ?s3 base sz (rest ! k) (peek_owner s' (rest ! k)) \<and>
           conflict ?s3 (peek_owner s' (rest ! k)) \<and> \<not> suppressed s' (rest ! k)"
    and f: "\<And>j. j < k \<Longrightarrow> \<not> conflict ?s3 (seen_owner ?s3 store rest j) \<or> may_suppress h ?s3 (rest ! j)"
    and e: "\<And>b. peek_owner s' b =
            (if store \<and> (\<exists>a\<in>set (take k rest). aliased a b) then ucast (g_ct_curr_thread ?s3)
             else peek_owner ?s3 b)"
    unfolding loop_post_def by blast+
  have rep: "report ?s3 base sz x ow = report s base sz x ow" for x ow
    by (simp add: report_def cur)
  have con: "conflict ?s3 ow = conflict s ow" for ow
    by (simp add: conflict_def cur)
  have d': "if Suc k = length (a # rest) then out = []
      else out = report s base sz ((a # rest) ! Suc k) (peek_owner s' ((a # rest) ! Suc k)) \<and>
           conflict s (peek_owner s' ((a # rest) ! Suc k)) \<and> \<not> suppressed s' ((a # rest) ! Suc k)"
    using d unfolding rep con by (simp split: if_splits)
  have e': "peek_owner s' b =
            (if store \<and> (\<exists>x\<in>set (take (Suc k) (a # rest)). aliased x b)
             then ucast (g_ct_curr_thread s) else peek_owner s b)" for b
    unfolding e [of b] pk3 cur by auto
  have sn: "seen_owner ?s3 store rest j = seen_owner s store (a # rest) (Suc j)" for j
    unfolding seen_owner_def pk3 cur by auto
  have f': "\<not> conflict s (seen_owner s store (a # rest) j) \<or> may_suppress h s ((a # rest) ! j)"
    if "j < Suc k" for j
  proof (cases j)
    case 0
    with first show ?thesis by (simp add: seen_owner_def)
  next
    case (Suc i)
    with that have "i < k" by simp
    from f [OF this] show ?thesis
      unfolding Suc sn con using may_suppress_mono [OF c3 se3] by auto
  qed
  have se'': "g_ct_stackend s' = g_ct_stackend s \<or> g_ct_stackend s' = ct_stack_end h"
    using se' se3 by auto
  show ?thesis unfolding loop_post_def
    using a same_ctl_trans [OF c3 b] c d' e' f' se'' by simp
qed

lemma ct_get_page_step:
  assumes wf: "ct_wf s"
  obtains s1 p pg where "ct_get_page s a = Some (s1, p)" "heap_page s1 p = Some pg" "ct_wf s1"
    "control s1 = control s" "page_of s1 a = p" "p \<noteq> 0" "peek_owner s1 = peek_owner s"
    "owning_thread pg (BYTE_IN_PAGE a) = peek_owner s a"
proof -
  from ct_get_page_spec [OF wf, of a] obtain s1 p pg where
    g: "ct_get_page s a = Some (s1, p)" "ct_wf s1" "control s1 = control s"
       "page_of s1 a = p" "p \<noteq> 0" "heap_page s1 p = Some pg"
       "\<forall>b. peek_owner s1 b = peek_owner s b"
    by blast
  have pk: "peek_owner s1 = peek_owner s" using g(7) by (intro ext) simp
  have "peek_owner s1 a = owning_thread pg (BYTE_IN_PAGE a)"
    by (simp add: peek_owner_def g(4) g(6))
  with pk have "owning_thread pg (BYTE_IN_PAGE a) = peek_owner s a" by simp
  with g pk that show ?thesis by blast
qed

lemma ct_on_access_loop_post:
  assumes "ct_wf s"
  shows "\<exists>s' out k. ct_on_access_loop h base sz store as s = Some (s', out) \<and>
           loop_post h base sz store as s s' out k"
  using assms
proof (induction as arbitrary: s)
  case Nil
  from loop_post_Nil [OF Nil, of h base sz store] show ?case by auto
next
  case (Cons a rest)
  from ct_get_page_step [OF Cons.prems, of a] obtain s1 p pg where
    g: "ct_get_page s a = Some (s1, p)" "heap_page s1 p = Some pg" "ct_wf s1"
       "control s1 = control s" "page_of s1 a = p" "p \<noteq> 0" "peek_owner s1 = peek_owner s"
       "owning_thread pg (BYTE_IN_PAGE a) = peek_owner s a"
    by blast
  have c1: "same_ctl s s1" by (rule control_same_ctl [OF g(4)])
  have e1: "g_ct_stackend s1 = g_ct_stackend s" using g(4) by (simp add: control_def)
  from c1 have cur1: "g_ct_curr_thread s1 = g_ct_curr_thread s" by (simp add: same_ctl_def)
  let ?ow = "peek_owner s a"
  show ?case
  proof (cases "conflict s ?ow")
    case False
    let ?s3 = "update_owner store s1 p pg (BYTE_IN_PAGE a)"
    have wf3: "ct_wf ?s3" by (rule update_owner_spec(1) [OF g(3) g(5) g(6) g(2)])
    from Cons.IH [OF wf3] obtain s' out k where
      r: "ct_on_access_loop h base sz store rest ?s3 = Some (s', out)"
         "loop_post h base sz store rest ?s3 s' out k" by blast
    have eq: "ct_on_access_loop h base sz store (a # rest) s = Some (s', out)"
      using False r(1) by (auto simp: g(1) g(2) g(8) cur1 conflict_def Let_def)
    from loop_post_Cons [OF g(3) c1 g(7) _ _ g(5) g(6) g(2) r(2)] e1 False eq show ?thesis by blast
  next
    case True
    obtain sup s2 where su: "ct_suppress h s1 a = (sup, s2)" by force
    note pt = pagetab_eq [OF ct_suppress_pagetab [OF su]]
    have c2: "same_ctl s s2" by (rule same_ctl_trans [OF c1 ct_suppress_same_ctl [OF su]])
    then have cur2: "g_ct_curr_thread s2 = g_ct_curr_thread s" by (simp add: same_ctl_def)
    have wf2: "ct_wf s2" using g(3) pt(1) by simp
    have pk2: "peek_owner s2 = peek_owner s" using g(7) pt(3) by simp
    have e2: "g_ct_stackend s2 = g_ct_stackend s \<or> g_ct_stackend s2 = ct_stack_end h"
      using ct_suppress_stackend [OF su] e1 by simp
    note sr = ct_suppress_result [OF su]
    show ?thesis
    proof (cases sup)
      case False
      have eq: "ct_on_access_loop h base sz store (a # rest) s =
                  Some (s2, report s base sz a ?ow)"
        using True False
        by (auto simp: g(1) g(2) g(8) cur1 cur2 conflict_def Let_def su report_def)
      from loop_post_stop [OF wf2 c2 pk2 True e2] sr False eq show ?thesis by blast
    next
      case sup: True
      let ?s3 = "update_owner store s2 p pg (BYTE_IN_PAGE a)"
      have p2: "page_of s2 a = p" "heap_page s2 p = Some pg" using g(5) g(2) pt(2) pt(4) by simp_all
      have wf3: "ct_wf ?s3" by (rule update_owner_spec(1) [OF wf2 p2(1) g(6) p2(2)])
      from Cons.IH [OF wf3] obtain s' out k where
        r: "ct_on_access_loop h base sz store rest ?s3 = Some (s', out)"
           "loop_post h base sz store rest ?s3 s' out k" by blast
      have eq: "ct_on_access_loop h base sz store (a # rest) s = Some (s', out)"
        using True sup r(1) by (auto simp: g(1) g(2) g(8) cur1 conflict_def Let_def su)
      have "may_suppress h s a" using suppressed_may [OF c2 e2] sr sup by simp
      from loop_post_Cons [OF wf2 c2 pk2 e2 _ p2(1) g(6) p2(2) r(2)] this eq show ?thesis by blast
    qed
  qed
qed

lemma chains_ok_restrict:
  assumes ok: "chains_ok la hp pv hc par"
  shows "chains_ok la (hp |` (- A)) pv (hc |` {z. par z \<notin> A}) par"
  unfolding chains_ok_def
proof (intro conjI allI impI ballI)
  fix x t assume xt: "(hp |` (- A)) x = Some t"
  then have x: "x \<notin> A" "hp x = Some t" by (auto simp: restrict_map_def split: if_splits)
  from ok x(2) obtain l where l: "chain hc pv (la t) l" "distinct l" "set l = {y \<in> dom hc. par y = x}"
    unfolding chains_ok_def by blast
  have "chain (hc |` {z. par z \<notin> A}) pv (la t) l"
    by (rule chain_frame [OF l(1)]) (use l(3) x(1) in \<open>auto simp: restrict_map_def\<close>)
  moreover have "set l = {y \<in> dom (hc |` {z. par z \<notin> A}). par y = x}"
    using l(3) x(1) by (auto simp: restrict_map_def)
  ultimately show "\<exists>l. chain (hc |` {z. par z \<notin> A}) pv (la t) l \<and> distinct l \<and>
      set l = {y \<in> dom (hc |` {z. par z \<notin> A}). par y = x}"
    using l(2) by blast
next
  fix y assume "y \<in> dom (hc |` {z. par z \<notin> A})"
  then have "y \<in> dom hc" "par y \<notin> A" by (auto simp: restrict_map_def split: if_splits)
  moreover from this ok have "par y \<in> dom hp" unfolding chains_ok_def by blast
  ultimately show "par y \<in> dom (hp |` (- A))" by (auto simp: restrict_map_def)
qed

lemma restrict_children:
  assumes "set l = {y \<in> dom hc. par y = x}"
  shows "hc |` (- set l) = hc |` {z. par z \<notin> {x}}"
proof (rule ext)
  fix z
  show "(hc |` (- set l)) z = (hc |` {z. par z \<notin> {x}}) z"
    using assms by (cases "hc z") (auto simp: restrict_map_def)
qed

lemma free_pages_chain:
  assumes "chain (heap_page s) prev_alloc_page p l" "distinct l"
  shows "free_pages s p = Some (s \<lparr> heap_page := heap_page s |` (- set l) \<rparr>)"
  using assms
proof (induction l arbitrary: s p)
  case Nil
  then show ?case by (simp add: free_pages.simps)
next
  case (Cons x xs)
  from Cons.prems(1) obtain n where n: "p = x" "x \<noteq> 0" "heap_page s x = Some n"
    "chain (heap_page s) prev_alloc_page (prev_alloc_page n) xs"
    by (auto split: option.splits)
  let ?s = "s \<lparr> heap_page := (heap_page s)(x := None) \<rparr>"
  from Cons.prems(2) have d: "x \<notin> set xs" "distinct xs" by simp_all
  have "chain (heap_page ?s) prev_alloc_page (prev_alloc_page n) xs"
    by (rule chain_frame [OF n(4)]) (use d(1) in auto)
  from Cons.IH [OF this d(2)]
  have "free_pages ?s (prev_alloc_page n) = Some (?s \<lparr> heap_page := heap_page ?s |` (- set xs) \<rparr>)" .
  moreover have "(heap_page s)(x := None) |` (- set xs) = heap_page s |` (- set (x # xs))"
    by (rule ext) (simp add: restrict_map_def)
  ultimately show ?case
    using n(1-3) by (subst free_pages.simps) simp
qed

lemma free_pagetabs_L1_chain:
  assumes "chain (heap_L1 s) prev_alloc_pagetab_L1 p l" "distinct l"
    and "chains_ok last_alloc_page (heap_L1 s) prev_alloc_page (heap_page s) parP"
  shows "free_pagetabs_L1 s p =
           Some (s \<lparr> heap_page := heap_page s |` {z. parP z \<notin> set l},
                     heap_L1 := heap_L1 s |` (- set l) \<rparr>)"
  using assms
proof (induction l arbitrary: s p)
  case Nil
  then show ?case by (simp add: free_pagetabs_L1.simps)
next
  case (Cons y ys)
  from Cons.prems(1) obtain t where t: "p = y" "y \<noteq> 0" "heap_L1 s y = Some t"
    "chain (heap_L1 s) prev_alloc_pagetab_L1 (prev_alloc_pagetab_L1 t) ys"
    by (auto split: option.splits)
  from Cons.prems(2) have d: "y \<notin> set ys" "distinct ys" by simp_all
  from Cons.prems(3) t(3) obtain lp where lp: "chain (heap_page s) prev_alloc_page (last_alloc_page t) lp"
    "distinct lp" "set lp = {z \<in> dom (heap_page s). parP z = y}"
    unfolding chains_ok_def by blast
  let ?hp = "heap_page s |` {z. parP z \<notin> {y}}"
  let ?sa = "s \<lparr> heap_page := ?hp \<rparr>"
  let ?sb = "?sa \<lparr> heap_L1 := (heap_L1 ?sa)(y := None) \<rparr>"
  have fp: "free_pages s (last_alloc_page t) = Some ?sa"
    using free_pages_chain [OF lp(1,2)] restrict_children [OF lp(3)] by simp
  have h1: "heap_L1 ?sb = heap_L1 s |` (- {y})"
    by (rule ext) (simp add: restrict_map_def)
  have ch: "chain (heap_L1 ?sb) prev_alloc_pagetab_L1 (prev_alloc_pagetab_L1 t) ys"
    by (rule chain_frame [OF t(4)]) (use d(1) in auto)
  have ok: "chains_ok last_alloc_page (heap_L1 ?sb) prev_alloc_page (heap_page ?sb) parP"
    unfolding h1 using chains_ok_restrict [OF Cons.prems(3), of "{y}"] by simp
  from Cons.IH [OF ch d(2) ok]
  have ih: "free_pagetabs_L1 ?sb (prev_alloc_pagetab_L1 t) =
           Some (?sb \<lparr> heap_page := heap_page ?sb |` {z. parP z \<notin> set ys},
                     heap_L1 := heap_L1 ?sb |` (- set ys) \<rparr>)" .
  have e1: "?hp |` {z. parP z \<notin> set ys} = heap_page s |` {z. parP z \<notin> set (y # ys)}"
    by (rule ext) (auto simp: restrict_map_def)
  have e2: "(heap_L1 s)(y := None) |` (- set ys) = heap_L1 s |` (- set (y # ys))"
    by (rule ext) (simp add: restrict_map_def)
  show ?case
    apply (subst free_pagetabs_L1.simps)
    using t(1-3) fp ih e1 e2 by simp
qed

lemma free_pagetabs_L2_chain:
  assumes "chain (heap_L2 s) prev_alloc_pagetab_L2 p l" "distinct l"
    and "chains_ok last_alloc_pagetab_L1 (heap_L2 s) prev_alloc_pagetab_L1 (heap_L1 s) par1"
    and "chains_ok last_alloc_page (heap_L1 s) prev_alloc_page (heap_page s) parP"
  shows "\<exists>h1 hp. free_pagetabs_L2 s p =
           Some (s \<lparr> heap_page := hp, heap_L1 := h1, heap_L2 := heap_L2 s |` (- set l) \<rparr>) \<and>
           chains_ok last_alloc_pagetab_L1 (heap_L2 s |` (- set l)) prev_alloc_pagetab_L1 h1 par1 \<and>
           chains_ok last_alloc_page h1 prev_alloc_page hp parP"
  using assms
proof (induction l arbitrary: s p)
  case Nil
  have u: "heap_L2 s |` (- set []) = heap_L2 s"
    by (rule ext) (simp add: restrict_map_def)
  from Nil show ?case
    unfolding u
    apply (subst free_pagetabs_L2.simps)
    apply (rule exI [of _ "heap_L1 s"], rule exI [of _ "heap_page s"])
    by simp
next
  case (Cons x xs)
  from Cons.prems(1) obtain t where t: "p = x" "x \<noteq> 0" "heap_L2 s x = Some t"
    "chain (heap_L2 s) prev_alloc_pagetab_L2 (prev_alloc_pagetab_L2 t) xs"
    by (auto split: option.splits)
  from Cons.prems(2) have d: "x \<notin> set xs" "distinct xs" by simp_all
  from Cons.prems(3) t(3) obtain l1 where l1:
    "chain (heap_L1 s) prev_alloc_pagetab_L1 (last_alloc_pagetab_L1 t) l1"
    "distinct l1" "set l1 = {y \<in> dom (heap_L1 s). par1 y = x}"
    unfolding chains_ok_def by blast
  let ?hp = "heap_page s |` {z. parP z \<notin> set l1}"
  let ?h1 = "heap_L1 s |` (- set l1)"
  let ?sa = "s \<lparr> heap_page := ?hp, heap_L1 := ?h1 \<rparr>"
  let ?sb = "?sa \<lparr> heap_L2 := (heap_L2 ?sa)(x := None) \<rparr>"
  have f1: "free_pagetabs_L1 s (last_alloc_pagetab_L1 t) = Some ?sa"
    by (rule free_pagetabs_L1_chain [OF l1(1,2) Cons.prems(4)])
  have h2: "heap_L2 ?sb = heap_L2 s |` (- {x})"
    by (rule ext) (simp add: restrict_map_def)
  have ch: "chain (heap_L2 ?sb) prev_alloc_pagetab_L2 (prev_alloc_pagetab_L2 t) xs"
    by (rule chain_frame [OF t(4)]) (use d(1) in auto)
  have ok1: "chains_ok last_alloc_pagetab_L1 (heap_L2 ?sb) prev_alloc_pagetab_L1 (heap_L1 ?sb) par1"
    unfolding h2 using chains_ok_restrict [OF Cons.prems(3), of "{x}"] restrict_children [OF l1(3)]
    by simp
  have ok2: "chains_ok last_alloc_page (heap_L1 ?sb) prev_alloc_page (heap_page ?sb) parP"
    using chains_ok_restrict [OF Cons.prems(4), of "set l1"] by simp
  from Cons.IH [OF ch d(2) ok1 ok2] obtain h1 hp where
    ih: "free_pagetabs_L2 ?sb (prev_alloc_pagetab_L2 t) =
           Some (?sb \<lparr> heap_page := hp, heap_L1 := h1, heap_L2 := heap_L2 ?sb |` (- set xs) \<rparr>)"
        "chains_ok last_alloc_pagetab_L1 (heap_L2 ?sb |` (- set xs)) prev_alloc_pagetab_L1 h1 par1"
        "chains_ok last_alloc_page h1 prev_alloc_page hp parP"
    by blast
  have e2: "heap_L2 ?sb |` (- set xs) = heap_L2 s |` (- set (x # xs))"
    by (rule ext) (simp add: restrict_map_def)
  have "free_pagetabs_L2 s p =
           Some (s \<lparr> heap_page := hp, heap_L1 := h1, heap_L2 := heap_L2 s |` (- set (x # xs)) \<rparr>)"
    apply (subst free_pagetabs_L2.simps)
    using t(1-3) f1 ih(1) e2 by simp
  with ih(2,3) e2 show ?case by auto
qed

lemma chains_ok_empty_parent:
  assumes "chains_ok la Map.empty pv hc par" shows "hc = Map.empty"
proof (rule ext)
  fix y show "hc y = None" using assms unfolding chains_ok_def by (cases "hc y") auto
qed

lemma wf_par_empty:
  assumes "g_ct_pagetab_L3 s = \<lparr> pagetabs_L2 = (\<lambda>_. 0), last_alloc_pagetab_L2 = 0 \<rparr>"
    "heap_L2 s = Map.empty" "heap_L1 s = Map.empty" "heap_page s = Map.empty"
  shows "wf_par s par1 parP"
  by (rule wf_parI) (simp_all add: assms root_L3_def slots_ok_def chains_ok_def)

lemma ct_clear_pagetab_spec:
  assumes wf: "ct_wf s"
  shows "ct_clear_pagetab s =
           Some (s \<lparr> heap_page := Map.empty, heap_L1 := Map.empty, heap_L2 := Map.empty,
                     g_ct_pagetab_L3 := \<lparr> pagetabs_L2 = (\<lambda>_. 0), last_alloc_pagetab_L2 = 0 \<rparr> \<rparr>)"
proof -
  from wf obtain par1 parP where w: "wf_par s par1 parP" unfolding ct_wf_def by blast
  have "root_L3 s 0 = Some (g_ct_pagetab_L3 s)" by (simp add: root_L3_def)
  with wf_parD(2) [OF w] obtain l where
    l: "chain (heap_L2 s) prev_alloc_pagetab_L2 (last_alloc_pagetab_L2 (g_ct_pagetab_L3 s)) l"
       "distinct l" "set l = {y \<in> dom (heap_L2 s). (0::nat) = 0}"
    unfolding chains_ok_def by blast
  from l(3) have sl: "set l = dom (heap_L2 s)" by simp
  from free_pagetabs_L2_chain [OF l(1,2) wf_parD(4) [OF w] wf_parD(6) [OF w]] obtain h1 hp where
    r: "free_pagetabs_L2 s (last_alloc_pagetab_L2 (g_ct_pagetab_L3 s)) =
           Some (s \<lparr> heap_page := hp, heap_L1 := h1, heap_L2 := heap_L2 s |` (- set l) \<rparr>)"
       "chains_ok last_alloc_pagetab_L1 (heap_L2 s |` (- set l)) prev_alloc_pagetab_L1 h1 par1"
       "chains_ok last_alloc_page h1 prev_alloc_page hp parP"
    by blast
  have e2: "heap_L2 s |` (- set l) = Map.empty"
    unfolding sl by (rule ext) (auto simp: restrict_map_def)
  from r(2) have e1: "h1 = Map.empty" unfolding e2 by (rule chains_ok_empty_parent)
  from r(3) have ep: "hp = Map.empty" unfolding e1 by (rule chains_ok_empty_parent)
  show ?thesis unfolding ct_clear_pagetab_def r(1) e2 e1 ep by simp
qed

lemma ct_str_is_first: "ct_str_is m v (c # cs) \<Longrightarrow> m v = of_char c"
  by (simp split: if_splits)

lemma ct_str_is_prefix:
  "ct_str_is m v cs \<longleftrightarrow> (\<forall>i<length cs. m (v + of_nat i) = of_char (cs ! i))"
proof (induction cs arbitrary: v)
  case Nil
  then show ?case by simp
next
  case (Cons c cs)
  have "(\<forall>i<length (c # cs). m (v + of_nat i) = of_char ((c # cs) ! i)) \<longleftrightarrow>
        m v = of_char c \<and> (\<forall>i<length cs. m (v + 1 + of_nat i) = of_char (cs ! i))"
    by (auto simp: less_Suc_eq_0_disj add.assoc)
  with Cons.IH [of "v + 1"] show ?case by auto
qed

lemma opcode_first_letters:
  assumes "ct_str_is m v ''end_for''" shows "\<not> ct_str_is m v ''begin_for''"
  using ct_str_is_first [OF assms] by simp

lemma iter_excl:
  assumes "ct_str_is m v ''iter''"
  shows "\<not> ct_str_is m v ''begin_for''" "\<not> ct_str_is m v ''end_for''"
  using ct_str_is_first [OF assms] by simp_all

lemma done_excl:
  assumes "ct_str_is m v ''done''"
  shows "\<not> ct_str_is m v ''begin_for''" "\<not> ct_str_is m v ''end_for''" "\<not> ct_str_is m v ''iter''"
  using ct_str_is_first [OF assms] by simp_all

lemma thrd_excl:
  assumes "ct_str_is m v ''thrd''"
  shows "\<not> ct_str_is m v ''begin_for''" "\<not> ct_str_is m v ''end_for''" "\<not> ct_str_is m v ''iter''"
    "\<not> ct_str_is m v ''done''"
  using ct_str_is_first [OF assms] by simp_all

lemma process_untagged:
  assumes "\<not> ct_str_is (mem h) (const_magic cmd) CONST_MAGIC"
  shows "ct_process_command h s cmd = Some (s, [])"
  using assms by (simp add: ct_process_command_def del: ct_str_is.simps)

lemma process_iter:
  assumes "ct_str_is (mem h) (const_magic cmd) CONST_MAGIC" "ct_str_is (mem h) (payload cmd) ''iter''"
  shows "ct_process_command h s cmd =
           Some (s \<lparr> g_ct_active := True, g_ct_last_cmd := cmd \<rparr>,
                 if clo_print_commands s then [Print_iter (ct_cmd_int h cmd 4)] else [])"
  unfolding ct_process_command_def using assms iter_excl [OF assms(2)] by (simp del: ct_str_is.simps)

lemma process_done:
  assumes "ct_str_is (mem h) (const_magic cmd) CONST_MAGIC" "ct_str_is (mem h) (payload cmd) ''done''"
  shows "ct_process_command h s cmd =
           Some (s \<lparr> g_ct_active := False, g_ct_last_cmd := cmd \<rparr>,
                 if clo_print_commands s then [Print_done (ct_cmd_int h cmd 4)] else [])"
  unfolding ct_process_command_def using assms done_excl [OF assms(2)] by (simp del: ct_str_is.simps)

lemma process_thrd:
  assumes "ct_str_is (mem h) (const_magic cmd) CONST_MAGIC" "ct_str_is (mem h) (payload cmd) ''thrd''"
  shows "ct_process_command h s cmd =
           Some (s \<lparr> g_ct_curr_thread := ct_cmd_int h cmd 4 + 1, g_ct_last_cmd := cmd \<rparr>, [])"
  unfolding ct_process_command_def using assms thrd_excl [OF assms(2)] by (simp del: ct_str_is.simps)

lemma process_unknown:
  assumes "ct_str_is (mem h) (const_magic cmd) CONST_MAGIC"
    and "\<forall>name\<in>set opcode_names. \<not> ct_str_is (mem h) (payload cmd) name"
  shows "ct_process_command h s cmd =
           Some (s \<lparr> g_ct_last_cmd := cmd \<rparr>, [Warning_unknown_command, StackTrace 20])"
proof -
  from assms(2) have n: "\<not> ct_str_is (mem h) (payload cmd) ''begin_for''"
    "\<not> ct_str_is (mem h) (payload cmd) ''end_for''" "\<not> ct_str_is (mem h) (payload cmd) ''iter''"
    "\<not> ct_str_is (mem h) (payload cmd) ''done''" "\<not> ct_str_is (mem h) (payload cmd) ''thrd''"
    "\<not> ct_str_is (mem h) (payload cmd) ''stackbot''"
    unfolding opcode_names_def by (simp_all del: ct_str_is.simps)
  show ?thesis unfolding ct_process_command_def using assms(1) n by (simp del: ct_str_is.simps)
qed

lemma process_end_for:
  assumes wf: "ct_wf s"
    and "ct_str_is (mem h) (const_magic cmd) CONST_MAGIC" "ct_str_is (mem h) (payload cmd) ''end_for''"
  shows "ct_process_command h s cmd =
           Some (s \<lparr> heap_page := Map.empty, heap_L1 := Map.empty, heap_L2 := Map.empty,
                     g_ct_pagetab_L3 := \<lparr> pagetabs_L2 = (\<lambda>_. 0), last_alloc_pagetab_L2 = 0 \<rparr>,
                     g_ct_curr_thread := 0, g_ct_last_cmd := cmd \<rparr>,
                 if clo_print_commands s then [Print_end_for] else [])"
  unfolding ct_process_command_def ct_clear_pagetab_spec [OF wf]
  using assms(2,3) opcode_first_letters [OF assms(3)] by (simp del: ct_str_is.simps)

lemma ct_wf_control_upd:
  "ct_wf (s \<lparr> g_ct_last_cmd := c \<rparr>) = ct_wf s"
  "ct_wf (s \<lparr> g_ct_active := a \<rparr>) = ct_wf s"
  "ct_wf (s \<lparr> g_ct_curr_thread := t \<rparr>) = ct_wf s"
  "ct_wf (s \<lparr> g_ct_stackbot := b \<rparr>) = ct_wf s"
  "ct_wf (s \<lparr> g_ct_stackend := e \<rparr>) = ct_wf s"
  by (rule pagetab_eq(1), simp add: pagetab_def)+

lemma ct_wf_cleared:
  "ct_wf (s \<lparr> heap_page := Map.empty, heap_L1 := Map.empty, heap_L2 := Map.empty,
              g_ct_pagetab_L3 := \<lparr> pagetabs_L2 = (\<lambda>_. 0), last_alloc_pagetab_L2 = 0 \<rparr> \<rparr>)"
  unfolding ct_wf_def by (intro exI, rule wf_par_empty) simp_all

lemma ct_process_command_wf:
  assumes wf: "ct_wf s"
  shows "\<exists>s' out. ct_process_command h s cmd = Some (s', out) \<and> ct_wf s' \<and> (\<forall>e\<in>set out. \<not> is_race e)"
proof (cases "ct_str_is (mem h) (const_magic cmd) CONST_MAGIC")
  case False
  then show ?thesis using wf by (simp add: process_untagged del: ct_str_is.simps)
next
  case True
  show ?thesis
  proof (cases "ct_str_is (mem h) (payload cmd) ''begin_for''")
    case b: True
    with True wf show ?thesis
      unfolding ct_process_command_def by (simp add: ct_wf_control_upd is_race_def del: ct_str_is.simps)
  next
    case b: False
    show ?thesis
    proof (cases "ct_str_is (mem h) (payload cmd) ''end_for''")
      case e: True
      show ?thesis unfolding process_end_for [OF wf True e]
        using ct_wf_cleared [of s] by (simp add: ct_wf_control_upd is_race_def)
    next
      case e: False
      with True b wf show ?thesis
        unfolding ct_process_command_def
        by (simp add: ct_wf_control_upd is_race_def del: ct_str_is.simps)
    qed
  qed
qed

lemma ct_wf_init: "ct_wf (ct_init pc)"
  unfolding ct_wf_def by (intro exI, rule wf_par_empty) (simp_all add: ct_init_def)

lemma owner_of_peek:
  assumes "ct_wf s" shows "owner_of s a = Some (peek_owner s a)"
proof -
  from ct_get_page_step [OF assms, of a] obtain s1 p pg where
    g: "ct_get_page s a = Some (s1, p)" "heap_page s1 p = Some pg"
       "owning_thread pg (BYTE_IN_PAGE a) = peek_owner s a"
    by blast
  then show ?thesis by (simp add: owner_of_def)
qed

lemma ct_on_access_post:
  assumes "ct_wf s"
  shows "\<exists>s' out k. ct_on_access h s base sz store = Some (s', out) \<and>
           loop_post h base sz store (access_range base sz) s s' out k"
  unfolding ct_on_access_def by (rule ct_on_access_loop_post [OF assms])

lemma loop_postD:
  assumes "loop_post h base sz store as s s' out k"
  shows "ct_wf s'" "same_ctl s s'"
    "g_ct_stackend s' = g_ct_stackend s \<or> g_ct_stackend s' = ct_stack_end h"
    "k \<le> length as"
    "k = length as \<Longrightarrow> out = []"
    "k \<noteq> length as \<Longrightarrow> out = report s base sz (as ! k) (peek_owner s' (as ! k))"
    "k \<noteq> length as \<Longrightarrow> conflict s (peek_owner s' (as ! k))"
    "k \<noteq> length as \<Longrightarrow> \<not> suppressed s' (as ! k)"
    "j < k \<Longrightarrow> \<not> conflict s (seen_owner s store as j) \<or> may_suppress h s (as ! j)"
    "peek_owner s' b =
            (if store \<and> (\<exists>a\<in>set (take k as). aliased a b) then ucast (g_ct_curr_thread s)
             else peek_owner s b)"
proof -
  from assms have a: "ct_wf s'" "same_ctl s s'"
    "g_ct_stackend s' = g_ct_stackend s \<or> g_ct_stackend s' = ct_stack_end h"
    "k \<le> length as"
    and b: "if k = length as then out = []
      else out = report s base sz (as ! k) (peek_owner s' (as ! k)) \<and>
           conflict s (peek_owner s' (as ! k)) \<and> \<not> suppressed s' (as ! k)"
    and c: "\<forall>j<k. \<not> conflict s (seen_owner s store as j) \<or> may_suppress h s (as ! j)"
    and d: "\<forall>b. peek_owner s' b =
            (if store \<and> (\<exists>a\<in>set (take k as). aliased a b) then ucast (g_ct_curr_thread s)
             else peek_owner s b)"
    unfolding loop_post_def by blast+
  from a show "ct_wf s'" "same_ctl s s'"
    "g_ct_stackend s' = g_ct_stackend s \<or> g_ct_stackend s' = ct_stack_end h"
    "k \<le> length as" .
  from b show "k = length as \<Longrightarrow> out = []" by simp
  from b show "k \<noteq> length as \<Longrightarrow> out = report s base sz (as ! k) (peek_owner s' (as ! k))" by simp
  from b show "k \<noteq> length as \<Longrightarrow> conflict s (peek_owner s' (as ! k))" by simp
  from b show "k \<noteq> length as \<Longrightarrow> \<not> suppressed s' (as ! k)" by simp
  from c show "j < k \<Longrightarrow> \<not> conflict s (seen_owner s store as j) \<or> may_suppress h s (as ! j)" by blast
  from d show "peek_owner s' b =
            (if store \<and> (\<exists>a\<in>set (take k as). aliased a b) then ucast (g_ct_curr_thread s)
             else peek_owner s b)" by blast
qed

lemma ct_on_access_wf:
  assumes "ct_wf s" "ct_on_access h s base sz store = Some (s', out)"
  shows "ct_wf s'"
  using ct_on_access_post [OF assms(1), of h base sz store] assms(2) loop_postD(1) by fastforce

lemma trace_load_wf:
  assumes "ct_wf s" "trace_load h s a n = Some (s', out)"
  shows "ct_wf s'"
  using assms ct_on_access_wf by (auto simp: trace_load_def split: if_splits)

lemma ct_on_store_wf:
  assumes wf: "ct_wf s" and r: "ct_on_store h s a n = Some (s', out)"
  shows "ct_wf s'"
proof -
  obtain s1 out1 where c: "(if stored_magic h a = MAGIC then ct_process_command h s a else Some (s, []))
      = Some (s1, out1)" "ct_wf s1"
    using ct_process_command_wf [OF wf, of h a] wf by (cases "stored_magic h a = MAGIC") auto
  show ?thesis
  proof (cases "g_ct_active s1")
    case False
    with r c show ?thesis by (simp add: ct_on_store_def)
  next
    case True
    with r c(1) obtain out2 where "ct_on_access h s1 a n True = Some (s', out2)"
      by (auto simp: ct_on_store_def split: Option.bind_splits)
    from ct_on_access_wf [OF c(2) this] show ?thesis .
  qed
qed

lemma ct_on_store_total:
  assumes wf: "ct_wf s"
  shows "\<exists>s' out. ct_on_store h s a n = Some (s', out)"
proof -
  obtain s1 out1 where c: "(if stored_magic h a = MAGIC then ct_process_command h s a else Some (s, []))
      = Some (s1, out1)" "ct_wf s1"
    using ct_process_command_wf [OF wf, of h a] wf by (cases "stored_magic h a = MAGIC") auto
  from ct_on_access_post [OF c(2), of h a n True] obtain s2 out2 where
    "ct_on_access h s1 a n True = Some (s2, out2)" by blast
  with c(1) show ?thesis by (cases "g_ct_active s1") (simp_all add: ct_on_store_def)
qed

lemma reachable_wf: "reachable s \<Longrightarrow> ct_wf s"
proof (induction rule: reachable.induct)
  case (reachable_init pc)
  show ?case by (rule ct_wf_init)
next
  case (reachable_load s h addr sz s' out)
  then show ?case using trace_load_wf by blast
next
  case (reachable_store s h addr sz s' out)
  then show ?case using ct_on_store_wf unfolding trace_store_def by blast
next
  case (reachable_modify s h addr sz s' out)
  then show ?case using ct_on_store_wf unfolding trace_modify_def by blast
qed

lemma access_range_length: "length (access_range base sz) = unat sz"
  by (simp add: access_range_def)

lemma access_range_nth: "i < unat sz \<Longrightarrow> access_range base sz ! i = base + of_nat i"
  by (simp add: access_range_def)

lemma access_range_take:
  "k \<le> unat sz \<Longrightarrow> set (take k (access_range base sz)) = {base + of_nat i | i. i < k}"
  by (auto simp: access_range_def take_map)

lemma unat_base_plus: "unat (base + of_nat i :: 64 word) = (unat base + i) mod 2 ^ 64"
  by (simp add: unat_word_ariths unat_of_nat mod_add_right_eq)

lemma ucast_base_plus: "(ucast (base + of_nat i :: 64 word) :: 32 word) = ucast base + of_nat i"
proof -
  have d: "(2::nat) ^ 32 dvd 2 ^ 64" by (rule le_imp_power_dvd) simp
  have "(ucast (base + of_nat i :: 64 word) :: 32 word) = of_nat (unat (base + of_nat i :: 64 word))"
    by simp
  also have "\<dots> = of_nat ((unat base + i) mod 2 ^ 64)"
    by (simp only: unat_base_plus)
  also have "\<dots> = (of_nat (unat base + i) :: 32 word)"
    unfolding word_of_nat_eq_iff take_bit_eq_mod using mod_mod_cancel [OF d] by simp
  also have "\<dots> = ucast base + of_nat i" by simp
  finally show ?thesis .
qed

lemma aliased_offsets:
  assumes "i < 2 ^ 32" "j < 2 ^ 32"
  shows "aliased (base + of_nat i) (base + of_nat j) \<longleftrightarrow> i = j"
proof
  assume "aliased (base + of_nat i) (base + of_nat j)"
  then have "(of_nat i :: 32 word) = of_nat j"
    unfolding aliased_def ucast_base_plus by simp
  with assms show "i = j" by (simp add: word_of_nat_eq_iff take_bit_eq_mod)
next
  assume "i = j" then show "aliased (base + of_nat i) (base + of_nat j)" by (simp add: aliased_def)
qed

lemma tagged_cmd_host:
  "ct_str_is (mem (cmd_host base opcode args)) (const_magic base) CONST_MAGIC"
  by (simp add: cmd_host_def mem_at_def cmd_object_def const_magic_def CONST_MAGIC_def)

lemma magic_cmd_host: "stored_magic (cmd_host base opcode args) base = MAGIC"
  by (simp add: cmd_host_def mem_at_def cmd_object_def stored_magic_def load32_def MAGIC_def)

lemma sint_succ:
  assumes "sint (x :: 32 word) < 2 ^ 31 - 1"
  shows "sint (x + 1) = sint x + 1"
proof -
  have "sint (x + 1) = signed_take_bit 31 (sint x + 1)"
    by (simp add: sint_word_ariths)
  also have "\<dots> = sint x + 1"
    by (rule signed_take_bit_int_eq_self) (use sint_ge [of x] assms in simp_all)
  finally show ?thesis .
qed

lemma bytes_at_append:
  "bytes_at m a (xs @ ys) \<longleftrightarrow> bytes_at m a xs \<and> bytes_at m (a + of_nat (length xs)) ys"
proof
  assume h: "bytes_at m a (xs @ ys)"
  have "m (a + of_nat i) = xs ! i" if "i < length xs" for i
  proof -
    from that have "i < length (xs @ ys)" by simp
    from h [unfolded bytes_at_def, rule_format, OF this] that show ?thesis
      by (simp add: nth_append)
  qed
  moreover have "m (a + of_nat (length xs) + of_nat j) = ys ! j" if "j < length ys" for j
  proof -
    from that have "length xs + j < length (xs @ ys)" by simp
    from h [unfolded bytes_at_def, rule_format, OF this]
    have "m (a + of_nat (length xs + j)) = (xs @ ys) ! (length xs + j)" .
    then show ?thesis by (simp add: add.assoc)
  qed
  ultimately show "bytes_at m a xs \<and> bytes_at m (a + of_nat (length xs)) ys"
    unfolding bytes_at_def by blast
next
  assume h: "bytes_at m a xs \<and> bytes_at m (a + of_nat (length xs)) ys"
  show "bytes_at m a (xs @ ys)"
    unfolding bytes_at_def
  proof (intro allI impI)
    fix i assume i: "i < length (xs @ ys)"
    show "m (a + of_nat i) = (xs @ ys) ! i"
    proof (cases "i < length xs")
      case True
      with h show ?thesis unfolding bytes_at_def by (simp add: nth_append)
    next
      case False
      then have e: "i = length xs + (i - length xs)" and l: "i - length xs < length ys"
        using i by simp_all
      from h l have "m (a + of_nat (length xs) + of_nat (i - length xs)) = ys ! (i - length xs)"
        unfolding bytes_at_def by blast
      moreover have "a + of_nat (length xs) + of_nat (i - length xs) = a + of_nat i"
        using False by (simp add: add.assoc flip: of_nat_add)
      ultimately show ?thesis using False by (simp add: nth_append)
    qed
  qed
qed

lemma ct_str_is_bytes_at: "ct_str_is m v cs \<longleftrightarrow> bytes_at m v (map of_char cs)"
  unfolding ct_str_is_prefix bytes_at_def by auto

lemma bytes_at_4:
  "bytes_at m a [b0, b1, b2, b3] \<longleftrightarrow> m a = b0 \<and> m (a + 1) = b1 \<and> m (a + 2) = b2 \<and> m (a + 3) = b3"
  by (simp add: bytes_at_def All_less_Suc2 add.assoc)

lemma join_le32:
  "(ucast (ucast n :: 8 word) :: 32 word) OR push_bit 8 (ucast (ucast (drop_bit 8 n) :: 8 word))
     OR push_bit 16 (ucast (ucast (drop_bit 16 n) :: 8 word))
     OR push_bit 24 (ucast (ucast (drop_bit 24 n) :: 8 word)) = (n :: 32 word)"
proof (rule bit_word_eqI)
  fix k assume k: "k < LENGTH(32)"
  consider "k < 8" | "8 \<le> k" "k < 16" | "16 \<le> k" "k < 24" | "24 \<le> k" "k < 32"
    using k by fastforce
  then show "bit ((ucast (ucast n :: 8 word) :: 32 word) OR push_bit 8 (ucast (ucast (drop_bit 8 n) :: 8 word))
     OR push_bit 16 (ucast (ucast (drop_bit 16 n) :: 8 word))
     OR push_bit 24 (ucast (ucast (drop_bit 24 n) :: 8 word))) k = bit n k"
    by cases (auto simp: bit_simps)
qed

lemma load32_le32:
  assumes "bytes_at m a (le32 n)" shows "load32 m a = n"
proof -
  from assms have b: "m a = ucast n" "m (a + 1) = ucast (drop_bit 8 n)"
    "m (a + 2) = ucast (drop_bit 16 n)" "m (a + 3) = ucast (drop_bit 24 n)"
    by (simp_all add: le32_def bytes_at_4)
  show ?thesis unfolding load32_def b by (rule join_le32)
qed

lemma split_load32:
  "ucast (load32 m a) = m a" "ucast (drop_bit 8 (load32 m a)) = m (a + 1)"
  "ucast (drop_bit 16 (load32 m a)) = m (a + 2)" "ucast (drop_bit 24 (load32 m a)) = m (a + 3)"
proof -
  show "ucast (load32 m a) = m a"
    unfolding load32_def by (rule bit_word_eqI) (auto simp: bit_simps)
  show "ucast (drop_bit 8 (load32 m a)) = m (a + 1)"
    unfolding load32_def by (rule bit_word_eqI) (auto simp: bit_simps dest: bit_imp_le_length)
  show "ucast (drop_bit 16 (load32 m a)) = m (a + 2)"
    unfolding load32_def by (rule bit_word_eqI) (auto simp: bit_simps dest: bit_imp_le_length)
  show "ucast (drop_bit 24 (load32 m a)) = m (a + 3)"
    unfolding load32_def by (rule bit_word_eqI) (auto simp: bit_simps dest: bit_imp_le_length)
qed

lemma le32_load32: "bytes_at m a (le32 (load32 m a))"
  by (simp add: le32_def bytes_at_4 split_load32)

lemma bytes_at_le32_iff: "bytes_at m a (le32 n) \<longleftrightarrow> load32 m a = n"
  using load32_le32 le32_load32 by metis

lemma tagged_command_iff:
  "tagged_command h cmd name \<longleftrightarrow>
     stored_magic h cmd = MAGIC \<and> ct_str_is (mem h) (const_magic cmd) CONST_MAGIC \<and>
     ct_str_is (mem h) (payload cmd) name"
proof -
  have l: "length (le32 x) = 4" for x by (simp add: le32_def)
  have a: "cmd + 4 + 16 = cmd + 20" by simp
  show ?thesis
    unfolding tagged_command_def bytes_at_append ct_str_is_bytes_at stored_magic_def MAGIC_def
      const_magic_def payload_def CONST_MAGIC_def bytes_at_le32_iff l
    by (simp add: a)
qed

lemma bytes_at_mem_at:
  assumes "length pre + length bs \<le> 2 ^ 64"
  shows "bytes_at (mem_at base (pre @ bs @ post)) (base + of_nat (length pre)) bs"
  unfolding bytes_at_def
proof (intro allI impI)
  fix i assume i: "i < length bs"
  with assms have "length pre + i < 2 ^ 64" by simp
  then have u: "unat (of_nat (length pre + i) :: 64 word) = length pre + i"
    by (simp add: unat_of_nat del: of_nat_add)
  have "base + of_nat (length pre) + of_nat i - base = (of_nat (length pre + i) :: 64 word)"
    by simp
  then show "mem_at base (pre @ bs @ post) (base + of_nat (length pre) + of_nat i) = bs ! i"
    using i by (simp add: mem_at_def u Let_def nth_append del: of_nat_add)
qed

lemma command_layout:
  assumes "bytes_at (mem h) (cmd + 4) (map of_char ''Valgrind command'' @ map of_char name @ le32 N)"
    and "length name = 4"
  shows "ct_str_is (mem h) (const_magic cmd) CONST_MAGIC" "ct_str_is (mem h) (payload cmd) name"
    "ct_cmd_int h cmd 4 = N"
proof -
  have l: "length (map of_char ''Valgrind command'' :: 8 word list) = 16"
    "length (map of_char name :: 8 word list) = 4"
    using assms(2) by simp_all
  have p: "cmd + 4 + of_nat (16 :: nat) = payload cmd"
    "cmd + 4 + of_nat (16 :: nat) + of_nat (4 :: nat) = payload cmd + 4"
    by (simp_all add: payload_def)
  note x = assms(1) [unfolded bytes_at_append l p]
  from x show "ct_str_is (mem h) (const_magic cmd) CONST_MAGIC"
    unfolding ct_str_is_bytes_at CONST_MAGIC_def const_magic_def by blast
  from x show "ct_str_is (mem h) (payload cmd) name"
    unfolding ct_str_is_bytes_at by blast
  from x have "bytes_at (mem h) (payload cmd + 4) (le32 N)" by simp
  then show "ct_cmd_int h cmd 4 = N"
    unfolding ct_cmd_int_def by (rule load32_le32)
qed

lemma cmd_host_layout:
  assumes "length name + length args \<le> 1000"
  shows "bytes_at (mem (cmd_host base name args)) (base + 4)
           (map of_char ''Valgrind command'' @ map of_char name @ args)"
proof -
  have "bytes_at (mem_at base ([0x78, 0x56, 0x34, 0x12] @
          (map of_char ''Valgrind command'' @ map of_char name @ args) @ []))
          (base + of_nat (length [0x78, 0x56, 0x34, 0x12 :: 8 word]))
          (map of_char ''Valgrind command'' @ map of_char name @ args)"
    by (rule bytes_at_mem_at) (use assms in simp)
  then show ?thesis by (simp add: cmd_host_def cmd_object_def CONST_MAGIC_def)
qed

lemma ct_suppress_control:
  assumes "control s1 = control s"
  shows "fst (ct_suppress h s1 a) = fst (ct_suppress h s a)"
proof -
  from assms have e: "g_ct_stackend s1 = g_ct_stackend s" "g_ct_stackbot s1 = g_ct_stackbot s"
    "g_ct_last_cmd s1 = g_ct_last_cmd s" by (simp_all add: control_def)
  show ?thesis by (auto simp add: ct_suppress_def Let_def e)
qed

lemma access_range_1: "access_range a 1 = [a]"
  by (simp add: access_range_def)

lemma ct_on_access_single:
  assumes wf: "ct_wf s"
  shows "\<exists>s' out. ct_on_access h s a 1 st = Some (s', out) \<and> ct_wf s' \<and> same_ctl s s' \<and>
           out = (if conflict s (peek_owner s a) \<and> \<not> fst (ct_suppress h s a)
                  then report s a 1 a (peek_owner s a) else [])"
proof -
  from ct_get_page_step [OF wf, of a] obtain s1 p pg where
    g: "ct_get_page s a = Some (s1, p)" "heap_page s1 p = Some pg" "ct_wf s1"
       "control s1 = control s" "page_of s1 a = p" "p \<noteq> 0" "peek_owner s1 = peek_owner s"
       "owning_thread pg (BYTE_IN_PAGE a) = peek_owner s a"
    by blast
  have c1: "same_ctl s s1" by (rule control_same_ctl [OF g(4)])
  from c1 have cur1: "g_ct_curr_thread s1 = g_ct_curr_thread s" by (simp add: same_ctl_def)
  obtain sup s2 where su: "ct_suppress h s1 a = (sup, s2)" by force
  have sup: "sup = fst (ct_suppress h s a)" using ct_suppress_control [OF g(4), of h a] su by simp
  have c2: "same_ctl s s2" by (rule same_ctl_trans [OF c1 ct_suppress_same_ctl [OF su]])
  from c2 have cur2: "g_ct_curr_thread s2 = g_ct_curr_thread s" by (simp add: same_ctl_def)
  have c3: "same_ctl s (update_owner st s2 p pg (BYTE_IN_PAGE a))"
    "same_ctl s (update_owner st s1 p pg (BYTE_IN_PAGE a))"
    using same_ctl_trans [OF c2 update_owner_same_ctl] same_ctl_trans [OF c1 update_owner_same_ctl]
    by blast+
  have eq: "ct_on_access h s a 1 st =
      (if conflict s (peek_owner s a) then
         (if \<not> sup then Some (s2, report s a 1 a (peek_owner s a))
          else Some (update_owner st s2 p pg (BYTE_IN_PAGE a), []))
       else Some (update_owner st s1 p pg (BYTE_IN_PAGE a), []))"
    unfolding ct_on_access_def access_range_1
    by (auto simp: g(1) g(2) g(8) cur1 cur2 conflict_def Let_def su report_def)
  from ct_on_access_post [OF wf, of h a 1 st] obtain s' out k where
    r: "ct_on_access h s a 1 st = Some (s', out)" "loop_post h a 1 st (access_range a 1) s s' out k"
    by blast
  note wf' = loop_postD(1) [OF r(2)]
  show ?thesis
  proof (cases "conflict s (peek_owner s a)")
    case False
    with eq r(1) wf' c3 show ?thesis by auto
  next
    case True
    show ?thesis
    proof (cases sup)
      case s: True
      with True eq r(1) wf' c3 sup show ?thesis by auto
    next
      case s: False
      with True eq r(1) wf' c2 sup show ?thesis by auto
    qed
  qed
qed

lemma ct_on_access_range:
  assumes wf: "ct_wf s"
  shows "\<exists>s' out k. ct_on_access h s base sz store = Some (s', out) \<and> ct_wf s' \<and> same_ctl s s' \<and>
     (g_ct_stackend s' = g_ct_stackend s \<or> g_ct_stackend s' = ct_stack_end h) \<and>
     k \<le> unat sz \<and>
     (k = unat sz \<longrightarrow> out = []) \<and>
     (k < unat sz \<longrightarrow>
        out = report s base sz (base + of_nat k) (peek_owner s' (base + of_nat k)) \<and>
        conflict s (peek_owner s' (base + of_nat k)) \<and> \<not> suppressed s' (base + of_nat k)) \<and>
     (\<forall>j<k. \<not> conflict s (seen_owner s store (access_range base sz) j) \<or>
             may_suppress h s (base + of_nat j)) \<and>
     (\<forall>b. peek_owner s' b =
            (if store \<and> (\<exists>i<k. aliased (base + of_nat i) b) then ucast (g_ct_curr_thread s)
             else peek_owner s b))"
proof -
  from ct_on_access_post [OF wf, of h base sz store] obtain s' out k where
    r: "ct_on_access h s base sz store = Some (s', out)"
       "loop_post h base sz store (access_range base sz) s s' out k"
    by blast
  note d = loop_postD [OF r(2)]
  have k: "k \<le> unat sz" using d(4) by (simp add: access_range_length)
  have nth: "access_range base sz ! j = base + of_nat j" if "j < unat sz" for j
    using that by (rule access_range_nth)
  have a: "k = unat sz \<longrightarrow> out = []" using d(5) by (simp add: access_range_length)
  have b: "k < unat sz \<longrightarrow>
        out = report s base sz (base + of_nat k) (peek_owner s' (base + of_nat k)) \<and>
        conflict s (peek_owner s' (base + of_nat k)) \<and> \<not> suppressed s' (base + of_nat k)"
    using d(6,7,8) nth [of k] by (auto simp: access_range_length)
  have c: "\<forall>j<k. \<not> conflict s (seen_owner s store (access_range base sz) j) \<or>
             may_suppress h s (base + of_nat j)"
  proof (intro allI impI)
    fix j assume j: "j < k"
    with k have "j < unat sz" by simp
    from d(9) [OF j] nth [OF this]
    show "\<not> conflict s (seen_owner s store (access_range base sz) j) \<or>
             may_suppress h s (base + of_nat j)" by simp
  qed
  have al: "(\<exists>x\<in>set (take k (access_range base sz)). aliased x b) \<longleftrightarrow>
            (\<exists>i<k. aliased (base + of_nat i) b)" for b
    unfolding access_range_take [OF k] by auto
  have e: "\<forall>b. peek_owner s' b =
            (if store \<and> (\<exists>i<k. aliased (base + of_nat i) b) then ucast (g_ct_curr_thread s)
             else peek_owner s b)"
    using d(10) al by simp
  from r(1) d(1,2,3) k a b c e show ?thesis by blast
qed

lemma seen_owner_range:
  assumes "unat sz \<le> 2 ^ 32" "j < unat sz"
  shows "seen_owner s store (access_range base sz) j = peek_owner s (base + of_nat j)"
proof -
  have "\<not> aliased x (access_range base sz ! j)" if x: "x \<in> set (take j (access_range base sz))" for x
  proof -
    from assms(2) have "j \<le> unat sz" by simp
    from x [unfolded access_range_take [OF this]] obtain i where i: "x = base + of_nat i" "i < j"
      by blast
    from i(2) assms have "i < 2 ^ 32" "j < 2 ^ 32" by simp_all
    from aliased_offsets [OF this, of base] i show ?thesis
      by (simp add: access_range_nth [OF assms(2)])
  qed
  then show ?thesis
    unfolding seen_owner_def by (auto simp: access_range_nth [OF assms(2)])
qed

lemma process_pagetab:
  assumes "ct_process_command h s cmd = Some (s1, out1)"
    and "\<not> (ct_str_is (mem h) (const_magic cmd) CONST_MAGIC \<and> ct_str_is (mem h) (payload cmd) ''end_for'')"
  shows "pagetab s1 = pagetab s"
  using assms unfolding ct_process_command_def
  by (auto simp: pagetab_def simp del: ct_str_is.simps split: if_splits)

lemma process_active:
  assumes wf: "ct_wf s"
    and "ct_process_command h s cmd = Some (s1, out1)"
    and "\<not> (ct_str_is (mem h) (const_magic cmd) CONST_MAGIC \<and> ct_str_is (mem h) (payload cmd) ''iter'')"
    and "\<not> g_ct_active s"
  shows "\<not> g_ct_active s1"
  using assms(2-) unfolding ct_process_command_def ct_clear_pagetab_spec [OF wf]
  by (auto simp del: ct_str_is.simps split: if_splits)

lemma ct_on_store_cases:
  assumes wf: "ct_wf s"
  shows "\<exists>s1 out1.
     (if stored_magic h a = MAGIC then ct_process_command h s a else Some (s, [])) = Some (s1, out1) \<and>
     ct_wf s1 \<and> (\<forall>e\<in>set out1. \<not> is_race e) \<and>
     (if g_ct_active s1
      then \<exists>s' out2. ct_on_access h s1 a n True = Some (s', out2) \<and>
             ct_on_store h s a n = Some (s', out1 @ out2)
      else ct_on_store h s a n = Some (s1, out1))"
proof -
  obtain s1 out1 where c: "(if stored_magic h a = MAGIC then ct_process_command h s a else Some (s, []))
      = Some (s1, out1)" "ct_wf s1" "\<forall>e\<in>set out1. \<not> is_race e"
    using ct_process_command_wf [OF wf, of h a] wf by (cases "stored_magic h a = MAGIC") auto
  from ct_on_access_post [OF c(2), of h a n True] obtain s2 out2 where
    r: "ct_on_access h s1 a n True = Some (s2, out2)" by blast
  have "if g_ct_active s1
      then \<exists>s' out2. ct_on_access h s1 a n True = Some (s', out2) \<and>
             ct_on_store h s a n = Some (s', out1 @ out2)
      else ct_on_store h s a n = Some (s1, out1)"
    using c(1) r by (simp add: ct_on_store_def)
  with c show ?thesis by blast
qed


lemmas eval_defs = trace_store_def trace_load_def trace_modify_def ct_on_store_def stored_magic_def load32_def
  MAGIC_def ct_init_def ct_on_access_def access_range_def ct_get_page_def get_pagetab_L2_def
  get_pagetab_L1_def get_page_L1_def L2_PAGETAB_def L1_PAGETAB_def PAGE_def BYTE_IN_PAGE_def Let_def
  update_owner_def owner_of_def calloc_page_def calloc_pagetab_L1_def calloc_pagetab_L2_def
  cmd_host_def mem_at_def cmd_object_def plain_host_def ct_process_command_def const_magic_def
  payload_def CONST_MAGIC_def ct_cmd_int_def ct_suppress_def ct_stack_end_def sizeof_ct_cmd_def

lemma notify_wf:
  assumes "ct_wf s" "notify s ev = Some (t, out)"
  shows "ct_wf t"
proof (cases ev)
  case Event_Ir
  with assms show ?thesis by simp
next
  case (Event_Dr h a n)
  with assms trace_load_wf show ?thesis by auto
next
  case (Event_Dw h a n)
  with assms ct_on_store_wf show ?thesis by (auto simp: trace_store_def)
next
  case (Event_Dm h a n)
  with assms ct_on_store_wf show ?thesis by (auto simp: trace_modify_def)
qed

lemma notify_reachable:
  assumes "reachable s" "notify s ev = Some (t, out)"
  shows "reachable t"
proof (cases ev)
  case Event_Ir
  with assms show ?thesis by simp
next
  case (Event_Dr h a n)
  with assms reachable_load show ?thesis by auto
next
  case (Event_Dw h a n)
  with assms reachable_store show ?thesis by auto
next
  case (Event_Dm h a n)
  with assms reachable_modify show ?thesis by auto
qed

lemma run_events_reachable:
  assumes "reachable s" "run_events s evs = Some (t, out)"
  shows "reachable t"
  using assms
proof (induction evs arbitrary: s out)
  case Nil
  then show ?case by simp
next
  case (Cons ev evs)
  from Cons.prems(2) obtain s1 out1 out2 where
    n: "notify s ev = Some (s1, out1)" and r: "run_events s1 evs = Some (t, out2)"
    by (auto split: option.splits)
  from Cons.IH [OF notify_reachable [OF Cons.prems(1) n] r] show ?case .
qed

lemma trace_load_total:
  assumes "ct_wf s"
  shows "\<exists>t out. trace_load h s a n = Some (t, out)"
  using ct_on_access_post [OF assms, of h a n False] by (auto simp: trace_load_def)

lemma notify_total:
  assumes "ct_wf s"
  shows "\<exists>t out. notify s ev = Some (t, out)"
proof (cases ev)
  case Event_Ir
  then show ?thesis by simp
next
  case (Event_Dr h a n)
  with trace_load_total [OF assms] show ?thesis by simp
next
  case (Event_Dw h a n)
  with ct_on_store_total [OF assms] show ?thesis by (simp add: trace_store_def)
next
  case (Event_Dm h a n)
  with ct_on_store_total [OF assms] show ?thesis by (simp add: trace_modify_def)
qed

lemma load_keeps_owner:
  assumes wf: "ct_wf s" and r: "trace_load h s a n = Some (t, out)"
  shows "owner_of t b = owner_of s b"
proof (cases "g_ct_active s")
  case False
  with r show ?thesis by (simp add: trace_load_def)
next
  case True
  from ct_on_access_range [OF wf, of h a n False] obtain s' out' k where
    a: "ct_on_access h s a n False = Some (s', out')" "ct_wf s'"
       "\<forall>b. peek_owner s' b =
            (if False \<and> (\<exists>i<k. aliased (a + of_nat i) b) then ucast (g_ct_curr_thread s)
             else peek_owner s b)"
    by blast
  from True r a(1) have t: "t = s'" by (simp add: trace_load_def)
  from a(3) have "peek_owner s' b = peek_owner s b" by simp
  then show ?thesis unfolding t owner_of_peek [OF wf] owner_of_peek [OF a(2)] by simp
qed

lemma store_keeps_owner:
  assumes wf: "ct_wf s" and r: "ct_on_store h s a n = Some (t, out)"
    and ne: "\<not> tagged_command h a ''end_for''"
    and na: "\<forall>i<unat n. \<not> aliased (a + of_nat i) b"
  shows "owner_of t b = owner_of s b"
proof -
  from ct_on_store_cases [OF wf, of h a n] obtain s1 out1 where
    c: "(if stored_magic h a = MAGIC then ct_process_command h s a else Some (s, [])) = Some (s1, out1)"
       "ct_wf s1"
    and d: "if g_ct_active s1
      then \<exists>s' out2. ct_on_access h s1 a n True = Some (s', out2) \<and>
             ct_on_store h s a n = Some (s', out1 @ out2)
      else ct_on_store h s a n = Some (s1, out1)"
    by blast
  have p1: "pagetab s1 = pagetab s"
  proof (cases "stored_magic h a = MAGIC")
    case False
    with c(1) show ?thesis by simp
  next
    case True
    with ne have n: "\<not> (ct_str_is (mem h) (const_magic a) CONST_MAGIC \<and>
        ct_str_is (mem h) (payload a) ''end_for'')"
      unfolding tagged_command_iff by blast
    from True c(1) have "ct_process_command h s a = Some (s1, out1)" by simp
    from process_pagetab [OF this n] show ?thesis .
  qed
  note pk1 = pagetab_eq(3) [OF p1]
  have "peek_owner t b = peek_owner s b \<and> ct_wf t"
  proof (cases "g_ct_active s1")
    case False
    with d r have "t = s1" by simp
    with pk1 c(2) show ?thesis by simp
  next
    case True
    with d r obtain out2 where a: "ct_on_access h s1 a n True = Some (t, out2)" by auto
    from ct_on_access_range [OF c(2), of h a n True] a obtain k where
      k: "ct_wf t" "k \<le> unat n"
         "\<forall>b. peek_owner t b =
            (if True \<and> (\<exists>i<k. aliased (a + of_nat i) b) then ucast (g_ct_curr_thread s1)
             else peek_owner s1 b)"
      by auto
    from na k(2) have "\<not> (\<exists>i<k. aliased (a + of_nat i) b)" by auto
    with k(3) have "peek_owner t b = peek_owner s1 b" by auto
    with pk1 k(1) show ?thesis by simp
  qed
  then show ?thesis using owner_of_peek [OF wf, of b] owner_of_peek [of t b] by simp
qed

lemma no_write_notify:
  assumes wf: "ct_wf s" and q: "no_write_to b ev" and r: "notify s ev = Some (t, out)"
  shows "owner_of t b = owner_of s b"
proof (cases ev)
  case Event_Ir
  with r show ?thesis by simp
next
  case (Event_Dr h a n)
  with r load_keeps_owner [OF wf] show ?thesis by simp
next
  case (Event_Dw h a n)
  with r q store_keeps_owner [OF wf, of h a n t out b] show ?thesis by (simp add: trace_store_def)
next
  case (Event_Dm h a n)
  with r q store_keeps_owner [OF wf, of h a n t out b] show ?thesis by (simp add: trace_modify_def)
qed

lemma no_write_run_events:
  assumes "ct_wf s" "list_all (no_write_to b) evs"
  shows "\<exists>t out. run_events s evs = Some (t, out) \<and> owner_of t b = owner_of s b"
  using assms
proof (induction evs arbitrary: s)
  case Nil
  then show ?case by simp
next
  case (Cons ev evs)
  from notify_total [OF Cons.prems(1), of ev] obtain s1 out1 where
    n: "notify s ev = Some (s1, out1)" by blast
  from Cons.prems(2) have q: "no_write_to b ev" "list_all (no_write_to b) evs" by simp_all
  from Cons.IH [OF notify_wf [OF Cons.prems(1) n] q(2)] obtain t out where
    r: "run_events s1 evs = Some (t, out)" "owner_of t b = owner_of s1 b" by blast
  from no_write_notify [OF Cons.prems(1) q(1) n] r n show ?case by simp
qed

lemma process_last_cmd:
  assumes wf: "ct_wf s" and m: "ct_str_is (mem h) (const_magic cmd) CONST_MAGIC"
    and r: "ct_process_command h s cmd = Some (s1, out1)"
  shows "g_ct_last_cmd s1 = cmd"
  using r m unfolding ct_process_command_def ct_clear_pagetab_spec [OF wf]
  by (auto simp del: ct_str_is.simps split: if_splits)

lemma cmd_range_suppressed:
  assumes l: "g_ct_last_cmd s = cmd" and b: "unat cmd + 148 < 2 ^ 64" and i: "i < 148"
  shows "suppressed s (cmd + of_nat i)"
proof -
  from b i have u: "unat (cmd + of_nat i) = unat cmd + i"
    by (simp add: unat_base_plus)
  have "unat (cmd + 148) = unat (cmd + of_nat 148)" by simp
  also have "\<dots> = unat cmd + 148" using b by (simp only: unat_base_plus) simp
  finally have v: "unat (cmd + 148) = unat cmd + 148" .
  have "cmd \<le> cmd + of_nat i" "cmd + of_nat i < cmd + 148"
    using i by (simp_all add: word_le_nat_alt word_less_nat_alt u v)
  then show ?thesis by (simp add: suppressed_def l sizeof_ct_cmd_def)
qed

lemma tracked_command_store:
  assumes wf: "ct_wf s1" and l: "g_ct_last_cmd s1 = cmd"
    and n: "unat sz \<le> 148" and b: "unat cmd + 148 < 2 ^ 64"
  shows "\<exists>s'. ct_on_access h s1 cmd sz True = Some (s', []) \<and> ct_wf s' \<and> same_ctl s1 s' \<and>
           (\<forall>b. peek_owner s' b =
              (if \<exists>i<unat sz. aliased (cmd + of_nat i) b then ucast (g_ct_curr_thread s1)
               else peek_owner s1 b))"
proof -
  from ct_on_access_range [OF wf, of h cmd sz True] obtain s' out k where
    a: "ct_on_access h s1 cmd sz True = Some (s', out)" "ct_wf s'" "same_ctl s1 s'"
       "k \<le> unat sz" "k = unat sz \<longrightarrow> out = []"
       "k < unat sz \<longrightarrow> \<not> suppressed s' (cmd + of_nat k)"
       "\<forall>b. peek_owner s' b =
            (if True \<and> (\<exists>i<k. aliased (cmd + of_nat i) b) then ucast (g_ct_curr_thread s1)
             else peek_owner s1 b)"
    by blast
  from a(3) l have l': "g_ct_last_cmd s' = cmd" by (simp add: same_ctl_def)
  have k: "k = unat sz"
  proof (rule ccontr)
    assume "k \<noteq> unat sz"
    with a(4) have lt: "k < unat sz" by simp
    with n have "k < 148" by simp
    from cmd_range_suppressed [OF l' b this] a(6) lt show False by simp
  qed
  with a show ?thesis by auto
qed

lemma peek_owner_cleared:
  assumes "heap_page s = Map.empty"
  shows "peek_owner s a = 0"
  by (simp add: peek_owner_def assms)

lemma ucast_byte_neq:
  assumes "256 \<le> sint (W :: 32 word)"
  shows "(ucast (ucast W :: 8 word) :: 32 word) \<noteq> W"
proof
  assume e: "(ucast (ucast W :: 8 word) :: 32 word) = W"
  have "uint (ucast (ucast W :: 8 word) :: 32 word) = uint (ucast W :: 8 word)"
    by (simp add: uint_up_ucast is_up)
  also have "\<dots> < 2 ^ 8" using uint_bounded [of "ucast W :: 8 word"] by simp
  finally have u: "uint W < 256" unfolding e by simp
  have "sint W = signed_take_bit 31 (uint W)"
    by (simp add: sint_uint)
  also have "\<dots> = uint W"
  proof (rule signed_take_bit_int_eq_self)
    have "(0::int) \<le> uint W" by simp
    moreover have "- (2 ^ 31) \<le> (0::int)" by simp
    ultimately show "- (2 ^ 31) \<le> uint W" by (rule order_trans [rotated])
    from u show "uint W < 2 ^ 31" by simp
  qed
  finally show False using assms u by simp
qed


lemma recognized_iff:
  "bytes_at (mem h) cmd (le32 0x12345678 @ map of_char ''Valgrind command'') \<longleftrightarrow>
     stored_magic h cmd = MAGIC \<and> ct_str_is (mem h) (const_magic cmd) CONST_MAGIC"
  using tagged_command_iff [of h cmd "[]"] by (simp add: tagged_command_def)

lemma tagged_recognized:
  assumes "tagged_command h cmd name"
  shows "bytes_at (mem h) cmd (le32 0x12345678 @ map of_char ''Valgrind command'')"
  using assms unfolding recognized_iff tagged_command_iff by blast

lemma le32_magic: "le32 0x12345678 = [0x78, 0x56, 0x34, 0x12]"
  by (simp add: le32_def)

lemma cmd_host_tagged:
  assumes "length name + length args \<le> 1000"
  shows "tagged_command (cmd_host base name args) base name"
proof -
  have "bytes_at (mem_at base ([] @
          ([0x78, 0x56, 0x34, 0x12] @ map of_char ''Valgrind command'' @ map of_char name) @ args))
          (base + of_nat (length ([] :: 8 word list)))
          ([0x78, 0x56, 0x34, 0x12] @ map of_char ''Valgrind command'' @ map of_char name)"
    by (rule bytes_at_mem_at) (use assms in simp)
  then show ?thesis
    unfolding tagged_command_def le32_magic
    by (simp add: cmd_host_def cmd_object_def CONST_MAGIC_def)
qed

lemma length_le32: "length (le32 n) = 4"
  by (simp add: le32_def)

lemma cmd_host_bytes:
  assumes "length name + length args \<le> 1000"
  shows "bytes_at (mem (cmd_host base name args)) base
           (le32 0x12345678 @ map of_char ''Valgrind command'' @ map of_char name @ args)"
proof -
  have "bytes_at (mem_at base ([] @
          ([0x78, 0x56, 0x34, 0x12] @ map of_char ''Valgrind command'' @ map of_char name @ args) @ []))
          (base + of_nat (length ([] :: 8 word list)))
          ([0x78, 0x56, 0x34, 0x12] @ map of_char ''Valgrind command'' @ map of_char name @ args)"
    by (rule bytes_at_mem_at) (use assms in simp)
  then show ?thesis
    unfolding le32_magic by (simp add: cmd_host_def cmd_object_def CONST_MAGIC_def)
qed

section \<open>The claims\<close>

text \<open>
  C2, as the code has it. Each index macro casts the address to the 32-bit \<open>UInt\<close> before it
  shifts, so \<open>L2_PAGETAB\<close> is 0 for every address, and the four indices of two addresses agree
  exactly when their low 32 bits agree. In every reachable state two such addresses have the
  same owner, and a one-byte store to \<open>a\<close> that reports nothing sets the owner of every
  address with the low 32 bits of \<open>a\<close>, and of no other; a store that reports changes no
  owner.
\<close>

theorem C2_index_truncation:
  assumes "reachable s"
  shows "L2_PAGETAB a = 0 \<and>
    ((L2_PAGETAB a = L2_PAGETAB b \<and> L1_PAGETAB a = L1_PAGETAB b \<and> PAGE a = PAGE b \<and>
      BYTE_IN_PAGE a = BYTE_IN_PAGE b) \<longleftrightarrow> (ucast a :: 32 word) = ucast b) \<and>
    ((ucast a :: 32 word) = ucast b \<longrightarrow> owner_of s a = owner_of s b) \<and>
    (\<exists>s' out. ct_on_access h s a 1 True = Some (s', out) \<and>
       (out = [] \<longrightarrow>
          (\<forall>b. owner_of s' b =
             (if (ucast a :: 32 word) = ucast b then Some (ucast (g_ct_curr_thread s))
              else owner_of s b))) \<and>
       (out \<noteq> [] \<longrightarrow> (\<forall>b. owner_of s' b = owner_of s b)))"
proof -
  note wf = reachable_wf [OF assms]
  have i: "(L2_PAGETAB a = L2_PAGETAB b \<and> L1_PAGETAB a = L1_PAGETAB b \<and> PAGE a = PAGE b \<and>
      BYTE_IN_PAGE a = BYTE_IN_PAGE b) \<longleftrightarrow> (ucast a :: 32 word) = ucast b"
    using same_slot_iff [of a b] by (simp add: L2_PAGETAB_zero)
  have al: "owner_of s a = owner_of s b" if "(ucast a :: 32 word) = ucast b"
  proof -
    from that have "aliased a b" by (simp add: aliased_def)
    from page_of_alias(1) [OF this, of s] page_of_alias(2) [OF this] have "peek_owner s a = peek_owner s b"
      unfolding peek_owner_def by (simp cong: option.case_cong)
    then show ?thesis by (simp add: owner_of_peek [OF wf])
  qed
  from ct_on_access_range [OF wf, of h a 1 True] obtain s' out k where
    r: "ct_on_access h s a 1 True = Some (s', out)" "ct_wf s'" "k \<le> unat (1 :: SizeT)"
       "k < unat (1 :: SizeT) \<longrightarrow>
          out = report s a 1 (a + of_nat k) (peek_owner s' (a + of_nat k))"
       "k = unat (1 :: SizeT) \<longrightarrow> out = []"
       "\<forall>b. peek_owner s' b =
            (if True \<and> (\<exists>i<k. aliased (a + of_nat i) b) then ucast (g_ct_curr_thread s)
             else peek_owner s b)"
    by blast
  have e: "\<forall>b. owner_of s' b =
             (if (ucast a :: 32 word) = ucast b then Some (ucast (g_ct_curr_thread s))
              else owner_of s b)" if "out = []"
  proof -
    from that r(3,4) have k: "k = 1" by (cases "k = 0") (simp_all add: report_def)
    have "(\<exists>i<k. aliased (a + of_nat i) b) \<longleftrightarrow> (ucast a :: 32 word) = ucast b" for b
      unfolding k by (simp add: aliased_def)
    with r(6) show ?thesis by (simp add: owner_of_peek [OF wf] owner_of_peek [OF r(2)])
  qed
  have n: "\<forall>b. owner_of s' b = owner_of s b" if "out \<noteq> []"
  proof -
    from that r(3,5) have "k = 0" by (cases "k = 0") simp_all
    with r(6) show ?thesis by (simp add: owner_of_peek [OF wf] owner_of_peek [OF r(2)])
  qed
  from i al r(1) e n show ?thesis by (simp add: L2_PAGETAB_zero)
qed

theorem C2_index_truncation_witness:
  "\<exists>s out0. run_events (ct_init False)
       [Event_Dw (cmd_host 0x2000 ''thrd'' [0, 0, 0, 0]) 0x2000 4,
        Event_Dw (cmd_host 0x2000 ''iter'' [0, 0, 0, 0]) 0x2000 4] = Some (s, out0) \<and>
      g_ct_curr_thread s = 1 \<and>
      L2_PAGETAB 0x100001000 = 0 \<and>
      (ucast (0x1000 :: Addr) :: 32 word) = ucast (0x100001000 :: Addr) \<and>
      (ucast (0x1000 :: Addr) :: 32 word) \<noteq> ucast (0x1001 :: Addr) \<and>
      owner_of s 0x1000 = owner_of s 0x100001000 \<and>
      (\<exists>s'. ct_on_access plain_host s 0x1000 1 True = Some (s', []) \<and>
         owner_of s' 0x1000 = Some 1 \<and> owner_of s' 0x100001000 = Some 1 \<and>
         owner_of s' 0x1001 = owner_of s 0x1001)"
proof -
  have "\<exists>s out0 s'. run_events (ct_init False)
       [Event_Dw (cmd_host 0x2000 ''thrd'' [0, 0, 0, 0]) 0x2000 4,
        Event_Dw (cmd_host 0x2000 ''iter'' [0, 0, 0, 0]) 0x2000 4] = Some (s, out0) \<and>
      g_ct_curr_thread s = 1 \<and> ct_on_access plain_host s 0x1000 1 True = Some (s', [])"
    by (simp add: eval_defs upt_rec)
  then obtain s out0 s1 where r: "run_events (ct_init False)
       [Event_Dw (cmd_host 0x2000 ''thrd'' [0, 0, 0, 0]) 0x2000 4,
        Event_Dw (cmd_host 0x2000 ''iter'' [0, 0, 0, 0]) 0x2000 4] = Some (s, out0)"
    and f: "g_ct_curr_thread s = 1" "ct_on_access plain_host s 0x1000 1 True = Some (s1, [])"
    by blast
  have reach: "reachable s" by (rule run_events_reachable [OF reachable_init r])
  have u: "(ucast (0x1000 :: Addr) :: 32 word) = ucast (0x100001000 :: Addr)"
    "(ucast (0x1000 :: Addr) :: 32 word) \<noteq> ucast (0x1001 :: Addr)"
    by simp_all
  note t = C2_index_truncation [OF reach, of _ _ plain_host]
  from t [of "0x100001000" "0x1000"] have z: "L2_PAGETAB 0x100001000 = 0" by blast
  from t [of "0x1000" "0x100001000"] u(1) have e: "owner_of s 0x1000 = owner_of s 0x100001000"
    by blast
  from t [of "0x1000" "0x1000"] f(2)
  have a: "\<forall>b. owner_of s1 b =
             (if (ucast (0x1000 :: Addr) :: 32 word) = ucast b then Some (ucast (g_ct_curr_thread s))
              else owner_of s b)"
    by auto
  from a [rule_format, of "0x1000"] a [rule_format, of "0x100001000"] a [rule_format, of "0x1001"]
  have "owner_of s1 0x1000 = Some 1" "owner_of s1 0x100001000 = Some 1"
    "owner_of s1 0x1001 = owner_of s 0x1001"
    by (simp_all add: f(1))
  with r f u z e show ?thesis by blast
qed

text \<open>
  C2 as stated fails: \<open>0x1000\<close> and \<open>0x100001000\<close> are distinct addresses below \<open>2^48\<close>
  with the same four indices, and a one-byte store to the first by worker 1 changes the owner
  of the second from 0 to 1.
\<close>

theorem C2_aliasing_counterexample:
  "(0x1000 :: Addr) \<noteq> 0x100001000 \<and> (0x1000 :: Addr) < 2 ^ 48 \<and> (0x100001000 :: Addr) < 2 ^ 48 \<and>
   L2_PAGETAB 0x1000 = L2_PAGETAB 0x100001000 \<and> L1_PAGETAB 0x1000 = L1_PAGETAB 0x100001000 \<and>
   PAGE 0x1000 = PAGE 0x100001000 \<and> BYTE_IN_PAGE 0x1000 = BYTE_IN_PAGE 0x100001000 \<and>
   (\<exists>s out0 s'. run_events (ct_init False)
       [Event_Dw (cmd_host 0x2000 ''thrd'' [0, 0, 0, 0]) 0x2000 4,
        Event_Dw (cmd_host 0x2000 ''iter'' [0, 0, 0, 0]) 0x2000 4] = Some (s, out0) \<and>
      g_ct_active s \<and> g_ct_curr_thread s = 1 \<and>
      owner_of s 0x100001000 = Some 0 \<and>
      trace_store plain_host s 0x1000 1 = Some (s', []) \<and>
      owner_of s' 0x1000 = Some 1 \<and> owner_of s' 0x100001000 = Some 1)"
  by (simp add: eval_defs upt_rec)

text \<open>
  C3. The store of a tagged \<open>end_for\<close> command (magic, marker, and a payload that begins with
  \<open>end_for\<close>) is processed by \<open>ct_process_command\<close>, which always returns; when it does, every
  address is unowned, no page, L1 table or L2 table is allocated, and the current worker is 0.
  If the detector is inactive this is the state in which the store hook returns; if it is
  active the hook goes on to track the store itself, as a write by worker 0, and every
  address is still unowned when it returns.
\<close>

theorem C3_reset_complete:
  assumes "reachable s" and "tagged_command h cmd ''end_for''"
  shows "\<exists>s' out. ct_process_command h s cmd = Some (s', out) \<and>
           (\<forall>a. owner_of s' a = Some 0) \<and>
           allocated_nodes s' = 0 \<and>
           heap_page s' = Map.empty \<and> heap_L1 s' = Map.empty \<and> heap_L2 s' = Map.empty \<and>
           g_ct_curr_thread s' = 0 \<and>
           out = (if clo_print_commands s then [Print_end_for] else []) \<and>
           (\<not> g_ct_active s \<longrightarrow> trace_store h s cmd sz = Some (s', out)) \<and>
           (\<exists>s2. trace_store h s cmd sz = Some (s2, out) \<and>
              (\<forall>a. owner_of s2 a = Some 0) \<and> g_ct_curr_thread s2 = 0)"
proof -
  note wf = reachable_wf [OF assms(1)]
  from assms(2) have t: "stored_magic h cmd = MAGIC" "ct_str_is (mem h) (const_magic cmd) CONST_MAGIC"
    "ct_str_is (mem h) (payload cmd) ''end_for''"
    unfolding tagged_command_iff by blast+
  let ?s' = "s \<lparr> heap_page := Map.empty, heap_L1 := Map.empty, heap_L2 := Map.empty,
                     g_ct_pagetab_L3 := \<lparr> pagetabs_L2 = (\<lambda>_. 0), last_alloc_pagetab_L2 = 0 \<rparr>,
                     g_ct_curr_thread := 0, g_ct_last_cmd := cmd \<rparr>"
  let ?out = "if clo_print_commands s then [Print_end_for] else []"
  note p = process_end_for [OF wf t(2,3)]
  from ct_process_command_wf [OF wf, of h cmd] p have wf': "ct_wf ?s'" by simp
  have pk: "peek_owner ?s' a = 0" for a by (rule peek_owner_cleared) simp
  have ow: "\<forall>a. owner_of ?s' a = Some 0" using owner_of_peek [OF wf'] pk by simp
  have al: "allocated_nodes ?s' = 0" by (simp add: allocated_nodes_def)
  have act: "g_ct_active ?s' = g_ct_active s" by simp
  have inact: "\<not> g_ct_active s \<longrightarrow> trace_store h s cmd sz = Some (?s', ?out)"
    by (simp add: trace_store_def ct_on_store_def t(1) p)
  have tr: "\<exists>s2. trace_store h s cmd sz = Some (s2, ?out) \<and>
              (\<forall>a. owner_of s2 a = Some 0) \<and> g_ct_curr_thread s2 = 0"
  proof (cases "g_ct_active s")
    case False
    with inact ow show ?thesis by simp
  next
    case True
    have lc: "g_ct_last_cmd ?s' = cmd" by simp
    from ct_on_access_range [OF wf', of h cmd sz True] obtain s2 out2 k where
      a: "ct_on_access h ?s' cmd sz True = Some (s2, out2)" "ct_wf s2" "same_ctl ?s' s2"
         "k \<le> unat sz" "k = unat sz \<longrightarrow> out2 = []"
         "k < unat sz \<longrightarrow> conflict ?s' (peek_owner s2 (cmd + of_nat k))"
         "\<forall>b. peek_owner s2 b =
            (if True \<and> (\<exists>i<k. aliased (cmd + of_nat i) b) then ucast (g_ct_curr_thread ?s')
             else peek_owner ?s' b)"
      by blast
    from a(7) pk have pk2: "peek_owner s2 b = 0" for b by simp
    then have "\<not> conflict ?s' (peek_owner s2 (cmd + of_nat k))" by (simp add: conflict_def)
    with a(4,5,6) have o2: "out2 = []" by fastforce
    have ow2: "\<forall>a. owner_of s2 a = Some 0" using owner_of_peek [OF a(2)] pk2 by simp
    from a(3) have c2: "g_ct_curr_thread s2 = 0" by (simp add: same_ctl_def)
    have "trace_store h s cmd sz = Some (s2, ?out)"
      using True by (simp add: trace_store_def ct_on_store_def t(1) p a(1) o2)
    with ow2 c2 show ?thesis by blast
  qed
  from p ow al inact tr show ?thesis by simp
qed

theorem C3_reset_complete_witness:
  "tagged_command (cmd_host 0x2000 ''end_for'' [0]) 0x2000 ''end_for'' \<and>
   (\<exists>s out0. run_events (ct_init False)
       [Event_Dw (cmd_host 0x1000 ''thrd'' [0, 0, 0, 0]) 0x1000 4,
        Event_Dw (cmd_host 0x1000 ''iter'' [0, 0, 0, 0]) 0x1000 4,
        Event_Dw plain_host 0x3000 2] = Some (s, out0) \<and>
      owner_of s 0x3000 = Some 1 \<and> owner_of s 0x3001 = Some 1 \<and>
      allocated_nodes s = 4 \<and> g_ct_curr_thread s = 1 \<and>
      (\<exists>s' out. ct_process_command (cmd_host 0x2000 ''end_for'' [0]) s 0x2000 = Some (s', out) \<and>
         owner_of s' 0x3000 = Some 0 \<and> owner_of s' 0x3001 = Some 0 \<and>
         allocated_nodes s' = 0 \<and> g_ct_curr_thread s' = 0))"
proof -
  have p: "ct_str_is (mem (cmd_host 0x2000 ''end_for'' [0])) (payload 0x2000) ''end_for''"
    by (simp add: cmd_host_def mem_at_def cmd_object_def payload_def CONST_MAGIC_def)
  have tg: "tagged_command (cmd_host 0x2000 ''end_for'' [0]) 0x2000 ''end_for''"
    unfolding tagged_command_iff using magic_cmd_host tagged_cmd_host p by blast
  have "\<exists>s out0. run_events (ct_init False)
       [Event_Dw (cmd_host 0x1000 ''thrd'' [0, 0, 0, 0]) 0x1000 4,
        Event_Dw (cmd_host 0x1000 ''iter'' [0, 0, 0, 0]) 0x1000 4,
        Event_Dw plain_host 0x3000 2] = Some (s, out0) \<and>
      owner_of s 0x3000 = Some 1 \<and> owner_of s 0x3001 = Some 1 \<and>
      allocated_nodes s = 4 \<and> g_ct_curr_thread s = 1"
    by (simp add: eval_defs upt_rec allocated_nodes_def)
  then obtain s out0 where r: "run_events (ct_init False)
       [Event_Dw (cmd_host 0x1000 ''thrd'' [0, 0, 0, 0]) 0x1000 4,
        Event_Dw (cmd_host 0x1000 ''iter'' [0, 0, 0, 0]) 0x1000 4,
        Event_Dw plain_host 0x3000 2] = Some (s, out0)"
    and f: "owner_of s 0x3000 = Some 1" "owner_of s 0x3001 = Some 1"
      "allocated_nodes s = 4" "g_ct_curr_thread s = 1"
    by blast
  have reach: "reachable s" by (rule run_events_reachable [OF reachable_init r])
  from C3_reset_complete [OF reach tg, of 4] obtain s' out where
    "ct_process_command (cmd_host 0x2000 ''end_for'' [0]) s 0x2000 = Some (s', out)"
    "\<forall>a. owner_of s' a = Some 0" "allocated_nodes s' = 0" "g_ct_curr_thread s' = 0"
    by blast
  with tg r f show ?thesis by blast
qed

text \<open>
  C4. The command object at \<open>cmd\<close> holds, from \<open>cmd + 4\<close> on, the 16 characters
  \<open>Valgrind command\<close>, then the four characters of the opcode name (the payload, at
  \<open>cmd + 20\<close>), then the four bytes of the 32-bit integer \<open>N\<close>, least significant first
  (at \<open>cmd + 24\<close>). Processing such a \<open>thrd\<close> command sets the current worker to \<open>N + 1\<close>
  (the machine addition; the integer \<open>N + 1\<close> for every \<open>N\<close> below \<open>INT_MAX\<close>); processing
  \<open>iter\<close> sets \<open>active\<close> to true; processing \<open>done\<close> sets it to false. The only other
  change is that \<open>g_ct_last_cmd\<close> remembers the command object; \<open>iter\<close> and \<open>done\<close> echo
  \<open>N\<close> when \<open>--print-commands\<close> is on, and \<open>thrd\<close> prints nothing.
\<close>

theorem C4_command_round_trip:
  "(bytes_at (mem h) (cmd + 4)
      (map of_char ''Valgrind command'' @ map of_char ''thrd'' @ le32 N) \<longrightarrow>
      ct_process_command h s cmd =
        Some (s \<lparr> g_ct_curr_thread := N + 1, g_ct_last_cmd := cmd \<rparr>, []) \<and>
      (sint N < 2 ^ 31 - 1 \<longrightarrow> sint (N + 1) = sint N + 1)) \<and>
   (bytes_at (mem h) (cmd + 4)
      (map of_char ''Valgrind command'' @ map of_char ''iter'' @ le32 N) \<longrightarrow>
      ct_process_command h s cmd =
        Some (s \<lparr> g_ct_active := True, g_ct_last_cmd := cmd \<rparr>,
              if clo_print_commands s then [Print_iter N] else [])) \<and>
   (bytes_at (mem h) (cmd + 4)
      (map of_char ''Valgrind command'' @ map of_char ''done'' @ le32 N) \<longrightarrow>
      ct_process_command h s cmd =
        Some (s \<lparr> g_ct_active := False, g_ct_last_cmd := cmd \<rparr>,
              if clo_print_commands s then [Print_done N] else []))"
proof (intro conjI impI)
  assume b: "bytes_at (mem h) (cmd + 4)
      (map of_char ''Valgrind command'' @ map of_char ''thrd'' @ le32 N)"
  have l: "length ''thrd'' = 4" by simp
  note c = command_layout [OF b l]
  show "ct_process_command h s cmd =
          Some (s \<lparr> g_ct_curr_thread := N + 1, g_ct_last_cmd := cmd \<rparr>, [])"
    using process_thrd [OF c(1,2), of s] unfolding c(3) .
next
  assume b: "sint N < 2 ^ 31 - 1"
  show "sint (N + 1) = sint N + 1"
    by (rule sint_succ [OF b])
next
  assume b: "bytes_at (mem h) (cmd + 4)
      (map of_char ''Valgrind command'' @ map of_char ''iter'' @ le32 N)"
  have l: "length ''iter'' = 4" by simp
  note c = command_layout [OF b l]
  show "ct_process_command h s cmd =
              Some (s \<lparr> g_ct_active := True, g_ct_last_cmd := cmd \<rparr>,
                    if clo_print_commands s then [Print_iter N] else [])"
    using process_iter [OF c(1,2), of s] unfolding c(3) .
next
  assume b: "bytes_at (mem h) (cmd + 4)
      (map of_char ''Valgrind command'' @ map of_char ''done'' @ le32 N)"
  have l: "length ''done'' = 4" by simp
  note c = command_layout [OF b l]
  show "ct_process_command h s cmd =
              Some (s \<lparr> g_ct_active := False, g_ct_last_cmd := cmd \<rparr>,
                    if clo_print_commands s then [Print_done N] else [])"
    using process_done [OF c(1,2), of s] unfolding c(3) .
qed

theorem C4_command_round_trip_witness:
  "bytes_at (mem (cmd_host 0x1000 ''thrd'' [0xFF, 1, 0, 0])) (0x1000 + 4)
      (map of_char ''Valgrind command'' @ map of_char ''thrd'' @ le32 0x1FF) \<and>
   ct_process_command (cmd_host 0x1000 ''thrd'' [0xFF, 1, 0, 0]) (ct_init False) 0x1000 =
     Some ((ct_init False) \<lparr> g_ct_curr_thread := 0x200, g_ct_last_cmd := 0x1000 \<rparr>, []) \<and>
   sint (0x1FF :: Int32) < 2 ^ 31 - 1 \<and> sint (0x1FF + 1 :: Int32) = 0x200 \<and>
   bytes_at (mem (cmd_host 0x1000 ''iter'' [0x39, 0x30, 0, 0])) (0x1000 + 4)
      (map of_char ''Valgrind command'' @ map of_char ''iter'' @ le32 12345) \<and>
   ct_process_command (cmd_host 0x1000 ''iter'' [0x39, 0x30, 0, 0]) (ct_init True) 0x1000 =
     Some ((ct_init True) \<lparr> g_ct_active := True, g_ct_last_cmd := 0x1000 \<rparr>, [Print_iter 12345]) \<and>
   bytes_at (mem (cmd_host 0x1000 ''done'' [0x39, 0x30, 0, 0])) (0x1000 + 4)
      (map of_char ''Valgrind command'' @ map of_char ''done'' @ le32 12345) \<and>
   ct_process_command (cmd_host 0x1000 ''done'' [0x39, 0x30, 0, 0])
       ((ct_init True) \<lparr> g_ct_active := True \<rparr>) 0x1000 =
     Some ((ct_init True) \<lparr> g_ct_active := False, g_ct_last_cmd := 0x1000 \<rparr>, [Print_done 12345])"
proof -
  have e: "le32 0x1FF = [0xFF, 1, 0, 0]" "le32 12345 = [0x39, 0x30, 0, 0]"
    by (simp_all add: le32_def)
  have b: "bytes_at (mem (cmd_host 0x1000 ''thrd'' [0xFF, 1, 0, 0])) (0x1000 + 4)
      (map of_char ''Valgrind command'' @ map of_char ''thrd'' @ le32 0x1FF)"
    "bytes_at (mem (cmd_host 0x1000 ''iter'' [0x39, 0x30, 0, 0])) (0x1000 + 4)
      (map of_char ''Valgrind command'' @ map of_char ''iter'' @ le32 12345)"
    "bytes_at (mem (cmd_host 0x1000 ''done'' [0x39, 0x30, 0, 0])) (0x1000 + 4)
      (map of_char ''Valgrind command'' @ map of_char ''done'' @ le32 12345)"
    unfolding e by (rule cmd_host_layout, simp)+
  have i: "(ct_init True) \<lparr> g_ct_active := True \<rparr> \<lparr> g_ct_active := False, g_ct_last_cmd := 0x1000 \<rparr>
      = (ct_init True) \<lparr> g_ct_active := False, g_ct_last_cmd := 0x1000 \<rparr>"
    "clo_print_commands (ct_init True)" "clo_print_commands ((ct_init True) \<lparr> g_ct_active := True \<rparr>)"
    by (simp_all add: ct_init_def)
  have a: "(0x1FF :: Int32) + 1 = 0x200" "sint (0x1FF :: Int32) < 2 ^ 31 - 1"
    "sint (0x200 :: Int32) = 0x200"
    by simp_all
  from
    C4_command_round_trip [where h = "cmd_host 0x1000 ''thrd'' [0xFF, 1, 0, 0]" and cmd = "0x1000"
      and s = "ct_init False" and N = "0x1FF"]
    C4_command_round_trip [where h = "cmd_host 0x1000 ''iter'' [0x39, 0x30, 0, 0]" and cmd = "0x1000"
      and s = "ct_init True" and N = 12345]
    C4_command_round_trip [where h = "cmd_host 0x1000 ''done'' [0x39, 0x30, 0, 0]" and cmd = "0x1000"
      and s = "(ct_init True) \<lparr> g_ct_active := True \<rparr>" and N = 12345]
    b
  show ?thesis unfolding i a by (simp only: a i if_True simp_thms)
qed

text \<open>
  C5, as the code has it. \<open>ct_str_is\<close> compares only the first \<open>strlen(name)\<close> bytes of the
  payload with an opcode name and never looks at the byte after them (for \<open>iter\<close>, \<open>done\<close>,
  \<open>thrd\<close> and \<open>stackbot\<close> that byte is the first byte of the argument). A tagged command whose
  payload begins with none of the six names has none of the six opcode effects: nothing but
  \<open>g_ct_last_cmd\<close> changes. A payload that begins with \<open>iter\<close>, such as \<open>iteration\<close>, is
  decoded as \<open>iter\<close>.
\<close>

theorem C5_prefix_decoding:
  "(ct_str_is m v name \<longleftrightarrow> (\<forall>i<length name. m (v + of_nat i) = of_char (name ! i))) \<and>
   (ct_str_is (mem h) (const_magic cmd) CONST_MAGIC \<longrightarrow>
      ((\<forall>name\<in>set opcode_names. \<not> ct_str_is (mem h) (payload cmd) name) \<longrightarrow>
         (\<exists>out. ct_process_command h s cmd = Some (s \<lparr> g_ct_last_cmd := cmd \<rparr>, out))) \<and>
      (ct_str_is (mem h) (payload cmd) ''iter'' \<longrightarrow>
         (\<exists>out. ct_process_command h s cmd =
                  Some (s \<lparr> g_ct_active := True, g_ct_last_cmd := cmd \<rparr>, out))))"
  using ct_str_is_prefix [where m = m and v = v and cs = name]
    process_unknown [where h = h and cmd = cmd and s = s]
    process_iter [where h = h and cmd = cmd and s = s]
  by blast

theorem C5_prefix_decoding_witness:
  "ct_str_is (mem (cmd_host 0x1000 ''iteration'' [0])) (payload 0x1000) ''iter'' \<and>
   \<not> (\<exists>i<length ''iter''. mem (cmd_host 0x1000 ''iteration'' [0]) (payload 0x1000 + of_nat i)
        \<noteq> of_char (''iter'' ! i)) \<and>
   ct_str_is (mem (cmd_host 0x1000 ''bogus'' [0])) (const_magic 0x1000) CONST_MAGIC \<and>
   \<not> (\<exists>name\<in>set opcode_names. ct_str_is (mem (cmd_host 0x1000 ''bogus'' [0])) (payload 0x1000) name) \<and>
   (\<exists>out. ct_process_command (cmd_host 0x1000 ''bogus'' [0]) (ct_init False) 0x1000 =
            Some ((ct_init False) \<lparr> g_ct_last_cmd := 0x1000 \<rparr>, out)) \<and>
   ct_str_is (mem (cmd_host 0x1000 ''iteration'' [0])) (const_magic 0x1000) CONST_MAGIC \<and>
   (\<exists>out. ct_process_command (cmd_host 0x1000 ''iteration'' [0]) (ct_init False) 0x1000 =
            Some ((ct_init False) \<lparr> g_ct_active := True, g_ct_last_cmd := 0x1000 \<rparr>, out))"
proof -
  have p: "ct_str_is (mem (cmd_host 0x1000 ''iteration'' [0])) (payload 0x1000) ''iter''"
    by (simp add: cmd_host_def mem_at_def cmd_object_def payload_def CONST_MAGIC_def)
  have n: "\<forall>name\<in>set opcode_names. \<not> ct_str_is (mem (cmd_host 0x1000 ''bogus'' [0])) (payload 0x1000) name"
    by (simp add: opcode_names_def cmd_host_def mem_at_def cmd_object_def payload_def CONST_MAGIC_def)
  note a = C5_prefix_decoding [where m = "mem (cmd_host 0x1000 ''iteration'' [0])"
      and v = "payload 0x1000" and name = "''iter''"
      and h = "cmd_host 0x1000 ''bogus'' [0]" and cmd = "0x1000" and s = "ct_init False"]
  note b = C5_prefix_decoding [where m = "mem (cmd_host 0x1000 ''iteration'' [0])"
      and v = "payload 0x1000" and name = "''iter''"
      and h = "cmd_host 0x1000 ''iteration'' [0]" and cmd = "0x1000" and s = "ct_init False"]
  from a b p n tagged_cmd_host [of "0x1000" "''bogus''" "[0]"]
    tagged_cmd_host [of "0x1000" "''iteration''" "[0]"]
  show ?thesis by blast
qed

text \<open>
  C5 as stated fails: the payload holds the NUL-terminated name \<open>iteration\<close>, which is none
  of the six names, and the \<open>iter\<close> effect is applied.
\<close>

theorem C5_iteration_counterexample:
  "ct_str_is (mem (cmd_host 0x1000 ''iteration'' [0])) (const_magic 0x1000) CONST_MAGIC \<and>
   map (\<lambda>i. mem (cmd_host 0x1000 ''iteration'' [0]) (payload 0x1000 + of_nat i)) [0..<10] =
     map of_char ''iteration'' @ [0] \<and>
   ''iteration'' \<notin> set opcode_names \<and>
   \<not> g_ct_active (ct_init False) \<and>
   ct_process_command (cmd_host 0x1000 ''iteration'' [0]) (ct_init False) 0x1000 =
     Some ((ct_init False) \<lparr> g_ct_active := True, g_ct_last_cmd := 0x1000 \<rparr>, [])"
proof -
  have p: "ct_str_is (mem (cmd_host 0x1000 ''iteration'' [0])) (payload 0x1000) ''iter''"
    by (simp add: cmd_host_def mem_at_def cmd_object_def payload_def CONST_MAGIC_def)
  have m: "map (\<lambda>i. mem (cmd_host 0x1000 ''iteration'' [0]) (payload 0x1000 + of_nat i)) [0..<10] =
     map of_char ''iteration'' @ [0]"
    by (simp add: cmd_host_def mem_at_def cmd_object_def payload_def CONST_MAGIC_def upt_rec)
  show ?thesis
    using process_iter [OF tagged_cmd_host p, of "ct_init False"] tagged_cmd_host m
    by (simp add: opcode_names_def ct_init_def del: ct_str_is.simps)
qed

text \<open>
  C6, as the code has it. The command object at \<open>cmd\<close> holds the 16 characters
  \<open>Valgrind command\<close> from \<open>cmd + 4\<close> on, and its payload, at \<open>cmd + 20\<close>, begins with none of
  the six opcode names. Then \<open>ct_process_command\<close> prints exactly one warning (the warning
  line followed by its stack trace) and leaves \<open>active\<close>, the current worker, the stack bounds
  and the Ownership Store as they were; \<open>g_ct_last_cmd\<close> is set to the address of the command
  object.
\<close>

theorem C6_unknown_opcode:
  assumes "bytes_at (mem h) (cmd + 4) (map of_char ''Valgrind command'')"
    and "\<forall>name\<in>set opcode_names. \<not> bytes_at (mem h) (cmd + 20) (map of_char name)"
  shows "ct_process_command h s cmd =
           Some (s \<lparr> g_ct_last_cmd := cmd \<rparr>, [Warning_unknown_command, StackTrace 20])"
proof -
  from assms(1) have m: "ct_str_is (mem h) (const_magic cmd) CONST_MAGIC"
    unfolding ct_str_is_bytes_at const_magic_def CONST_MAGIC_def .
  from assms(2) have n: "\<forall>name\<in>set opcode_names. \<not> ct_str_is (mem h) (payload cmd) name"
    unfolding ct_str_is_bytes_at payload_def .
  show ?thesis by (rule process_unknown [OF m n])
qed

theorem C6_unknown_opcode_witness:
  "bytes_at (mem (cmd_host 0x1000 ''bogus'' [0])) (0x1000 + 4) (map of_char ''Valgrind command'') \<and>
   \<not> (\<exists>name\<in>set opcode_names.
        bytes_at (mem (cmd_host 0x1000 ''bogus'' [0])) (0x1000 + 20) (map of_char name)) \<and>
   ct_process_command (cmd_host 0x1000 ''bogus'' [0]) (ct_init False) 0x1000 =
     Some ((ct_init False) \<lparr> g_ct_last_cmd := 0x1000 \<rparr>, [Warning_unknown_command, StackTrace 20])"
proof -
  have m: "bytes_at (mem (cmd_host 0x1000 ''bogus'' [0])) (0x1000 + 4) (map of_char ''Valgrind command'')"
    using tagged_cmd_host [of "0x1000" "''bogus''" "[0]"]
    unfolding ct_str_is_bytes_at const_magic_def CONST_MAGIC_def .
  have "\<forall>name\<in>set opcode_names. \<not> ct_str_is (mem (cmd_host 0x1000 ''bogus'' [0])) (0x1000 + 20) name"
    by (simp add: opcode_names_def cmd_host_def mem_at_def cmd_object_def CONST_MAGIC_def)
  then have n: "\<forall>name\<in>set opcode_names.
      \<not> bytes_at (mem (cmd_host 0x1000 ''bogus'' [0])) (0x1000 + 20) (map of_char name)"
    unfolding ct_str_is_bytes_at .
  from C6_unknown_opcode [OF m n, of "ct_init False"] m n
  show ?thesis by blast
qed

text \<open>
  C6 as stated fails twice. \<open>last_command\<close> is not the same before and after an unknown
  command. And a payload whose opcode string, \<open>iteration\<close>, is none of the six names, but
  begins with one of them, gives no warning and sets \<open>active\<close>.
\<close>

theorem C6_state_change_counterexample:
  "bytes_at (mem (cmd_host 0x1000 ''bogus'' [0])) (0x1000 + 4) (map of_char ''Valgrind command'') \<and>
   \<not> (\<exists>name\<in>set opcode_names.
        bytes_at (mem (cmd_host 0x1000 ''bogus'' [0])) (0x1000 + 20) (map of_char name)) \<and>
   (\<exists>s' out. ct_process_command (cmd_host 0x1000 ''bogus'' [0]) (ct_init False) 0x1000 = Some (s', out) \<and>
      g_ct_last_cmd s' \<noteq> g_ct_last_cmd (ct_init False)) \<and>
   bytes_at (mem (cmd_host 0x1000 ''iteration'' [0])) (0x1000 + 4) (map of_char ''Valgrind command'') \<and>
   bytes_at (mem (cmd_host 0x1000 ''iteration'' [0])) (0x1000 + 20) (map of_char ''iteration'' @ [0]) \<and>
   ''iteration'' \<notin> set opcode_names \<and>
   \<not> g_ct_active (ct_init False) \<and>
   ct_process_command (cmd_host 0x1000 ''iteration'' [0]) (ct_init False) 0x1000 =
     Some ((ct_init False) \<lparr> g_ct_active := True, g_ct_last_cmd := 0x1000 \<rparr>, [])"
proof -
  have m: "bytes_at (mem (cmd_host 0x1000 ''bogus'' [0])) (0x1000 + 4) (map of_char ''Valgrind command'')"
    using tagged_cmd_host [of "0x1000" "''bogus''" "[0]"]
    unfolding ct_str_is_bytes_at const_magic_def CONST_MAGIC_def .
  have n0: "\<forall>name\<in>set opcode_names. \<not> ct_str_is (mem (cmd_host 0x1000 ''bogus'' [0])) (payload 0x1000) name"
    by (simp add: opcode_names_def cmd_host_def mem_at_def cmd_object_def CONST_MAGIC_def payload_def)
  then have n: "\<not> (\<exists>name\<in>set opcode_names.
      bytes_at (mem (cmd_host 0x1000 ''bogus'' [0])) (0x1000 + 20) (map of_char name))"
    unfolding ct_str_is_bytes_at payload_def by blast
  have "g_ct_last_cmd ((ct_init False) \<lparr> g_ct_last_cmd := 0x1000 \<rparr>) \<noteq> g_ct_last_cmd (ct_init False)"
    by (simp add: ct_init_def)
  with process_unknown [OF tagged_cmd_host n0, of "ct_init False"]
  have a: "\<exists>s' out. ct_process_command (cmd_host 0x1000 ''bogus'' [0]) (ct_init False) 0x1000 = Some (s', out) \<and>
      g_ct_last_cmd s' \<noteq> g_ct_last_cmd (ct_init False)"
    by simp
  have l: "bytes_at (mem (cmd_host 0x1000 ''iteration'' [0])) (0x1000 + 4)
      (map of_char ''Valgrind command'' @ map of_char ''iteration'' @ [0])"
    by (rule cmd_host_layout) simp
  have len: "length (map of_char ''Valgrind command'' :: 8 word list) = 16" by simp
  have ad: "(0x1000 :: Addr) + 4 + of_nat (16 :: nat) = 0x1000 + 20" by simp
  from l [unfolded bytes_at_append len ad]
  have b: "bytes_at (mem (cmd_host 0x1000 ''iteration'' [0])) (0x1000 + 4) (map of_char ''Valgrind command'')"
    "bytes_at (mem (cmd_host 0x1000 ''iteration'' [0])) (0x1000 + 20) (map of_char ''iteration'' @ [0])"
    unfolding bytes_at_append by blast+
  have p: "ct_str_is (mem (cmd_host 0x1000 ''iteration'' [0])) (payload 0x1000) ''iter''"
    by (simp add: cmd_host_def mem_at_def cmd_object_def payload_def CONST_MAGIC_def)
  have i: "''iteration'' \<notin> set opcode_names" "\<not> g_ct_active (ct_init False)"
    by (simp_all add: opcode_names_def ct_init_def)
  from process_iter [OF tagged_cmd_host p, of "ct_init False"]
  have c: "ct_process_command (cmd_host 0x1000 ''iteration'' [0]) (ct_init False) 0x1000 =
     Some ((ct_init False) \<lparr> g_ct_active := True, g_ct_last_cmd := 0x1000 \<rparr>, [])"
    by (simp add: ct_init_def)
  from m n a b i c show ?thesis by blast
qed

text \<open>
  C7, as the code has it. A store whose target begins with the magic \<open>0x12345678\<close> and the
  marker \<open>Valgrind command\<close> is first processed as a command, which remembers the object in
  \<open>g_ct_last_cmd\<close>. If the detector is inactive after the command, nothing else happens. If
  it is active after the command, the store is also tracked as a write by the current worker:
  for a store of at most 148 bytes, the size of the command object, nothing is reported,
  every byte written gets the current worker as its owner, and every address that shares no
  slot with a byte written keeps its owner. A modify does what a store does.
\<close>

theorem C7_command_store_tracked:
  assumes "reachable s"
    and "bytes_at (mem h) cmd (le32 0x12345678 @ map of_char ''Valgrind command'')"
  shows "\<exists>s1 out1. ct_process_command h s cmd = Some (s1, out1) \<and> g_ct_last_cmd s1 = cmd \<and>
     trace_modify h s cmd sz = trace_store h s cmd sz \<and>
     (\<not> g_ct_active s1 \<longrightarrow> trace_store h s cmd sz = Some (s1, out1)) \<and>
     (g_ct_active s1 \<longrightarrow>
        (\<exists>s' out2. ct_on_access h s1 cmd sz True = Some (s', out2) \<and>
           trace_store h s cmd sz = Some (s', out1 @ out2) \<and>
           (unat sz \<le> 148 \<and> unat cmd + 148 < 2 ^ 64 \<longrightarrow>
              out2 = [] \<and>
              (\<forall>i<unat sz. owner_of s' (cmd + of_nat i) = Some (ucast (g_ct_curr_thread s1))) \<and>
              (\<forall>b. (\<forall>i<unat sz. (ucast (cmd + of_nat i) :: 32 word) \<noteq> ucast b) \<longrightarrow>
                   owner_of s' b = owner_of s1 b))))"
proof -
  note wf = reachable_wf [OF assms(1)]
  from assms(2) have t: "stored_magic h cmd = MAGIC" "ct_str_is (mem h) (const_magic cmd) CONST_MAGIC"
    unfolding recognized_iff by blast+
  from ct_on_store_cases [OF wf, of h cmd sz] t(1) obtain s1 out1 where
    c: "ct_process_command h s cmd = Some (s1, out1)" "ct_wf s1"
    and d: "if g_ct_active s1
      then \<exists>s' out2. ct_on_access h s1 cmd sz True = Some (s', out2) \<and>
             ct_on_store h s cmd sz = Some (s', out1 @ out2)
      else ct_on_store h s cmd sz = Some (s1, out1)"
    by auto
  note l = process_last_cmd [OF wf t(2) c(1)]
  have m: "trace_modify h s cmd sz = trace_store h s cmd sz"
    by (simp add: trace_modify_def trace_store_def)
  have i: "\<not> g_ct_active s1 \<longrightarrow> trace_store h s cmd sz = Some (s1, out1)"
    using d by (simp add: trace_store_def)
  have a: "\<exists>s' out2. ct_on_access h s1 cmd sz True = Some (s', out2) \<and>
           trace_store h s cmd sz = Some (s', out1 @ out2) \<and>
           (unat sz \<le> 148 \<and> unat cmd + 148 < 2 ^ 64 \<longrightarrow>
              out2 = [] \<and>
              (\<forall>i<unat sz. owner_of s' (cmd + of_nat i) = Some (ucast (g_ct_curr_thread s1))) \<and>
              (\<forall>b. (\<forall>i<unat sz. (ucast (cmd + of_nat i) :: 32 word) \<noteq> ucast b) \<longrightarrow>
                   owner_of s' b = owner_of s1 b))"
    if act: "g_ct_active s1"
  proof -
    from d act obtain s' out2 where
      r: "ct_on_access h s1 cmd sz True = Some (s', out2)"
         "ct_on_store h s cmd sz = Some (s', out1 @ out2)"
      by auto
    have "out2 = [] \<and>
              (\<forall>i<unat sz. owner_of s' (cmd + of_nat i) = Some (ucast (g_ct_curr_thread s1))) \<and>
              (\<forall>b. (\<forall>i<unat sz. (ucast (cmd + of_nat i) :: 32 word) \<noteq> ucast b) \<longrightarrow>
                   owner_of s' b = owner_of s1 b)"
      if n: "unat sz \<le> 148" and b: "unat cmd + 148 < 2 ^ 64"
    proof -
      from tracked_command_store [OF c(2) l n b, of h] r(1) have
        o: "out2 = []" and wf': "ct_wf s'"
        and pk: "\<forall>b. peek_owner s' b =
              (if \<exists>i<unat sz. aliased (cmd + of_nat i) b then ucast (g_ct_curr_thread s1)
               else peek_owner s1 b)"
        by auto
      have w: "owner_of s' (cmd + of_nat i) = Some (ucast (g_ct_curr_thread s1))" if "i < unat sz" for i
      proof -
        from that have "\<exists>j<unat sz. aliased (cmd + of_nat j) (cmd + of_nat i)"
          by (auto simp: aliased_def)
        with pk show ?thesis by (simp add: owner_of_peek [OF wf'])
      qed
      have k: "owner_of s' b = owner_of s1 b"
        if "\<forall>i<unat sz. (ucast (cmd + of_nat i) :: 32 word) \<noteq> ucast b" for b
      proof -
        from that have "\<not> (\<exists>i<unat sz. aliased (cmd + of_nat i) b)" by (simp add: aliased_def)
        with pk have "peek_owner s' b = peek_owner s1 b" by auto
        then show ?thesis by (simp add: owner_of_peek [OF wf'] owner_of_peek [OF c(2)])
      qed
      from o w k show ?thesis by blast
    qed
    with r show ?thesis by (auto simp: trace_store_def)
  qed
  from c(1) l m i a show ?thesis by blast
qed

theorem C7_command_store_tracked_witness:
  "bytes_at (mem (cmd_host 0x1000 ''iter'' [0, 0, 0, 0])) 0x1000
     (le32 0x12345678 @ map of_char ''Valgrind command'') \<and>
   (\<exists>s out0. run_events (ct_init False)
       [Event_Dw (cmd_host 0x1000 ''thrd'' [0, 0, 0, 0]) 0x1000 4] = Some (s, out0) \<and>
      \<not> g_ct_active s \<and>
      (\<exists>s1 s'. ct_process_command (cmd_host 0x1000 ''iter'' [0, 0, 0, 0]) s 0x1000 = Some (s1, []) \<and>
         g_ct_active s1 \<and> g_ct_curr_thread s1 = 1 \<and> g_ct_last_cmd s1 = 0x1000 \<and>
         trace_store (cmd_host 0x1000 ''iter'' [0, 0, 0, 0]) s 0x1000 4 = Some (s', []) \<and>
         owner_of s' 0x1000 = Some 1 \<and> owner_of s' 0x1001 = Some 1 \<and>
         owner_of s' 0x1002 = Some 1 \<and> owner_of s' 0x1003 = Some 1 \<and>
         owner_of s' 0x1004 = owner_of s1 0x1004))"
proof -
  let ?h = "cmd_host 0x1000 ''iter'' [0, 0, 0, 0]"
  have tg: "tagged_command ?h 0x1000 ''iter''" by (rule cmd_host_tagged) simp
  note rec = tagged_recognized [OF tg]
  from tg have t: "ct_str_is (mem ?h) (const_magic 0x1000) CONST_MAGIC"
    "ct_str_is (mem ?h) (payload 0x1000) ''iter''"
    unfolding tagged_command_iff by blast+
  have "\<exists>s out0. run_events (ct_init False)
       [Event_Dw (cmd_host 0x1000 ''thrd'' [0, 0, 0, 0]) 0x1000 4] = Some (s, out0) \<and>
      \<not> g_ct_active s \<and> g_ct_curr_thread s = 1 \<and> \<not> clo_print_commands s"
    by (simp add: eval_defs upt_rec)
  then obtain s out0 where r: "run_events (ct_init False)
       [Event_Dw (cmd_host 0x1000 ''thrd'' [0, 0, 0, 0]) 0x1000 4] = Some (s, out0)"
    and f: "\<not> g_ct_active s" "g_ct_curr_thread s = 1" "\<not> clo_print_commands s"
    by blast
  have reach: "reachable s" by (rule run_events_reachable [OF reachable_init r])
  note p = process_iter [OF t, of s]
  from C7_command_store_tracked [OF reach rec, of 4] p f(3) obtain s' out2 where
    a: "g_ct_last_cmd (s \<lparr> g_ct_active := True, g_ct_last_cmd := 0x1000 \<rparr>) = 0x1000"
       "trace_store ?h s 0x1000 4 = Some (s', [] @ out2)"
       "unat (4 :: SizeT) \<le> 148 \<and> unat (0x1000 :: Addr) + 148 < 2 ^ 64 \<longrightarrow>
              out2 = [] \<and>
              (\<forall>i<unat (4 :: SizeT). owner_of s' (0x1000 + of_nat i) =
                  Some (ucast (g_ct_curr_thread (s \<lparr> g_ct_active := True, g_ct_last_cmd := 0x1000 \<rparr>)))) \<and>
              (\<forall>b. (\<forall>i<unat (4 :: SizeT). (ucast ((0x1000 :: Addr) + of_nat i) :: 32 word) \<noteq> ucast b) \<longrightarrow>
                   owner_of s' b = owner_of (s \<lparr> g_ct_active := True, g_ct_last_cmd := 0x1000 \<rparr>) b)"
    by auto
  from a(3) have o: "out2 = []"
    and w: "\<forall>i<4. owner_of s' (0x1000 + of_nat i) = Some 1"
    and k: "\<forall>b. (\<forall>i<4. (ucast ((0x1000 :: Addr) + of_nat i) :: 32 word) \<noteq> ucast b) \<longrightarrow>
                   owner_of s' b = owner_of (s \<lparr> g_ct_active := True, g_ct_last_cmd := 0x1000 \<rparr>) b"
    by (simp_all add: f(2))
  from w [rule_format, of 0] w [rule_format, of 1] w [rule_format, of 2] w [rule_format, of 3]
  have w4: "owner_of s' 0x1000 = Some 1" "owner_of s' 0x1001 = Some 1"
    "owner_of s' 0x1002 = Some 1" "owner_of s' 0x1003 = Some 1"
    by simp_all
  have "\<forall>i<4. (ucast ((0x1000 :: Addr) + of_nat i) :: 32 word) \<noteq> ucast (0x1004 :: Addr)"
  proof (intro allI impI)
    fix i :: nat assume "i < 4"
    then consider "i = 0" | "i = 1" | "i = 2" | "i = 3" by linarith
    then show "(ucast ((0x1000 :: Addr) + of_nat i) :: 32 word) \<noteq> ucast (0x1004 :: Addr)"
      by cases simp_all
  qed
  with k have k4: "owner_of s' 0x1004 = owner_of (s \<lparr> g_ct_active := True, g_ct_last_cmd := 0x1000 \<rparr>) 0x1004"
    by blast
  from p f(3) have p': "ct_process_command ?h s 0x1000 =
      Some (s \<lparr> g_ct_active := True, g_ct_last_cmd := 0x1000 \<rparr>, [])" by simp
  have c: "g_ct_active (s \<lparr> g_ct_active := True, g_ct_last_cmd := 0x1000 \<rparr>)"
    "g_ct_curr_thread (s \<lparr> g_ct_active := True, g_ct_last_cmd := 0x1000 \<rparr>) = 1"
    by (simp_all add: f(2))
  from a(2) o have ts: "trace_store ?h s 0x1000 4 = Some (s', [])" by simp
  from rec r f(1) p' c a(1) ts w4 k4 show ?thesis by blast
qed

text \<open>
  C7 as stated fails: the store of an \<open>iter\<close> command object at \<open>0x1000\<close> by worker 1 is
  recognized as a command and changes the owner of the four bytes of the command object that
  it writes from 0 to 1.
\<close>

theorem C7_tracked_command_counterexample:
  "stored_magic (cmd_host 0x1000 ''iter'' [0, 0, 0, 0]) 0x1000 = MAGIC \<and>
   ct_str_is (mem (cmd_host 0x1000 ''iter'' [0, 0, 0, 0])) (const_magic 0x1000) CONST_MAGIC \<and>
   (\<exists>s out0 s'. run_events (ct_init False)
       [Event_Dw (cmd_host 0x1000 ''thrd'' [0, 0, 0, 0]) 0x1000 4] = Some (s, out0) \<and>
      owner_of s 0x1000 = Some 0 \<and> owner_of s 0x1001 = Some 0 \<and>
      owner_of s 0x1002 = Some 0 \<and> owner_of s 0x1003 = Some 0 \<and>
      trace_store (cmd_host 0x1000 ''iter'' [0, 0, 0, 0]) s 0x1000 4 = Some (s', []) \<and>
      owner_of s' 0x1000 = Some 1 \<and> owner_of s' 0x1001 = Some 1 \<and>
      owner_of s' 0x1002 = Some 1 \<and> owner_of s' 0x1003 = Some 1)"
  by (simp add: eval_defs upt_rec)

text \<open>
  C10, as the code has it. While \<open>active\<close> is false a load does nothing, and so does a store
  or modify whose target does not begin with the magic and the marker. A store that does is
  decoded as a command and remembered in \<open>g_ct_last_cmd\<close>, and the command prints no race
  report. Unless its payload begins with \<open>iter\<close>, the detector stays inactive and the store is
  not tracked; no owner changes unless the payload begins with \<open>end_for\<close>, which leaves every
  address unowned. If the payload begins with \<open>iter\<close> the detector is active when the command
  returns, and the same store is tracked as a write by the current worker: for a store of at
  most 148 bytes nothing is reported and every byte written gets that worker as its owner. A
  \<open>thrd\<close> command with argument \<open>N\<close> sets the current worker to \<open>N + 1\<close> while inactive.
\<close>

theorem C10_inactive:
  assumes "reachable s" and "\<not> g_ct_active s"
  shows "trace_load h s a n = Some (s, []) \<and>
    trace_modify h s a n = trace_store h s a n \<and>
    (\<not> bytes_at (mem h) a (le32 0x12345678 @ map of_char ''Valgrind command'') \<longrightarrow>
       trace_store h s a n = Some (s, [])) \<and>
    (bytes_at (mem h) a (le32 0x12345678 @ map of_char ''Valgrind command'') \<longrightarrow>
       (\<exists>s1 out1. ct_process_command h s a = Some (s1, out1) \<and> g_ct_last_cmd s1 = a \<and>
          (\<forall>e\<in>set out1. \<not> is_race e) \<and>
          (\<not> tagged_command h a ''iter'' \<longrightarrow>
             trace_store h s a n = Some (s1, out1) \<and> \<not> g_ct_active s1 \<and>
             (\<not> tagged_command h a ''end_for'' \<longrightarrow> (\<forall>b. owner_of s1 b = owner_of s b))) \<and>
          (tagged_command h a ''end_for'' \<longrightarrow> (\<forall>b. owner_of s1 b = Some 0)) \<and>
          (tagged_command h a ''iter'' \<longrightarrow>
             g_ct_active s1 \<and> g_ct_curr_thread s1 = g_ct_curr_thread s \<and>
             (\<exists>s2 out2. ct_on_access h s1 a n True = Some (s2, out2) \<and>
                trace_store h s a n = Some (s2, out1 @ out2) \<and>
                (unat n \<le> 148 \<and> unat a + 148 < 2 ^ 64 \<longrightarrow>
                   out2 = [] \<and>
                   (\<forall>i<unat n. owner_of s2 (a + of_nat i) = Some (ucast (g_ct_curr_thread s)))))))) \<and>
    (bytes_at (mem h) a
       (le32 0x12345678 @ map of_char ''Valgrind command'' @ map of_char ''thrd'' @ le32 N) \<longrightarrow>
       trace_store h s a n = Some (s \<lparr> g_ct_curr_thread := N + 1, g_ct_last_cmd := a \<rparr>, []))"
proof -
  note wf = reachable_wf [OF assms(1)]
  note na = assms(2)
  have ld: "trace_load h s a n = Some (s, [])" using na by (simp add: trace_load_def)
  have md: "trace_modify h s a n = trace_store h s a n"
    by (simp add: trace_modify_def trace_store_def)
  have nr: "trace_store h s a n = Some (s, [])"
    if "\<not> bytes_at (mem h) a (le32 0x12345678 @ map of_char ''Valgrind command'')"
  proof -
    from that have "stored_magic h a \<noteq> MAGIC \<or> \<not> ct_str_is (mem h) (const_magic a) CONST_MAGIC"
      unfolding recognized_iff by blast
    then show ?thesis
      using na process_untagged [of h a s]
      by (cases "stored_magic h a = MAGIC") (simp_all add: trace_store_def ct_on_store_def)
  qed
  have rc: "\<exists>s1 out1. ct_process_command h s a = Some (s1, out1) \<and> g_ct_last_cmd s1 = a \<and>
          (\<forall>e\<in>set out1. \<not> is_race e) \<and>
          (\<not> tagged_command h a ''iter'' \<longrightarrow>
             trace_store h s a n = Some (s1, out1) \<and> \<not> g_ct_active s1 \<and>
             (\<not> tagged_command h a ''end_for'' \<longrightarrow> (\<forall>b. owner_of s1 b = owner_of s b))) \<and>
          (tagged_command h a ''end_for'' \<longrightarrow> (\<forall>b. owner_of s1 b = Some 0)) \<and>
          (tagged_command h a ''iter'' \<longrightarrow>
             g_ct_active s1 \<and> g_ct_curr_thread s1 = g_ct_curr_thread s \<and>
             (\<exists>s2 out2. ct_on_access h s1 a n True = Some (s2, out2) \<and>
                trace_store h s a n = Some (s2, out1 @ out2) \<and>
                (unat n \<le> 148 \<and> unat a + 148 < 2 ^ 64 \<longrightarrow>
                   out2 = [] \<and>
                   (\<forall>i<unat n. owner_of s2 (a + of_nat i) = Some (ucast (g_ct_curr_thread s))))))"
    if rec: "bytes_at (mem h) a (le32 0x12345678 @ map of_char ''Valgrind command'')"
  proof -
    from rec have t: "stored_magic h a = MAGIC" "ct_str_is (mem h) (const_magic a) CONST_MAGIC"
      unfolding recognized_iff by blast+
    have tg: "tagged_command h a name \<longleftrightarrow> ct_str_is (mem h) (payload a) name" for name
      unfolding tagged_command_iff using t by simp
    from ct_on_store_cases [OF wf, of h a n] t(1) obtain s1 out1 where
      c: "ct_process_command h s a = Some (s1, out1)" "ct_wf s1" "\<forall>e\<in>set out1. \<not> is_race e"
      and d: "if g_ct_active s1
        then \<exists>s' out2. ct_on_access h s1 a n True = Some (s', out2) \<and>
               ct_on_store h s a n = Some (s', out1 @ out2)
        else ct_on_store h s a n = Some (s1, out1)"
      by auto
    note l = process_last_cmd [OF wf t(2) c(1)]
    have x: "trace_store h s a n = Some (s1, out1) \<and> \<not> g_ct_active s1 \<and>
             (\<not> tagged_command h a ''end_for'' \<longrightarrow> (\<forall>b. owner_of s1 b = owner_of s b))"
      if ni: "\<not> tagged_command h a ''iter''"
    proof -
      from ni have "\<not> (ct_str_is (mem h) (const_magic a) CONST_MAGIC \<and>
          ct_str_is (mem h) (payload a) ''iter'')"
        unfolding tg by simp
      from process_active [OF wf c(1) this na] have i1: "\<not> g_ct_active s1" .
      with d have ts: "trace_store h s a n = Some (s1, out1)" by (simp add: trace_store_def)
      have "\<forall>b. owner_of s1 b = owner_of s b" if "\<not> tagged_command h a ''end_for''"
      proof -
        from that have "\<not> (ct_str_is (mem h) (const_magic a) CONST_MAGIC \<and>
            ct_str_is (mem h) (payload a) ''end_for'')"
          unfolding tg by simp
        from pagetab_eq(3) [OF process_pagetab [OF c(1) this]]
        show ?thesis by (simp add: owner_of_peek [OF wf] owner_of_peek [OF c(2)])
      qed
      with i1 ts show ?thesis by blast
    qed
    have y: "\<forall>b. owner_of s1 b = Some 0" if "tagged_command h a ''end_for''"
    proof -
      from that have e: "ct_str_is (mem h) (payload a) ''end_for''" unfolding tg .
      from process_end_for [OF wf t(2) e] c(1) have "heap_page s1 = Map.empty" by auto
      from peek_owner_cleared [OF this] show ?thesis by (simp add: owner_of_peek [OF c(2)])
    qed
    have z: "g_ct_active s1 \<and> g_ct_curr_thread s1 = g_ct_curr_thread s \<and>
             (\<exists>s2 out2. ct_on_access h s1 a n True = Some (s2, out2) \<and>
                trace_store h s a n = Some (s2, out1 @ out2) \<and>
                (unat n \<le> 148 \<and> unat a + 148 < 2 ^ 64 \<longrightarrow>
                   out2 = [] \<and>
                   (\<forall>i<unat n. owner_of s2 (a + of_nat i) = Some (ucast (g_ct_curr_thread s)))))"
      if "tagged_command h a ''iter''"
    proof -
      from that have e: "ct_str_is (mem h) (payload a) ''iter''" unfolding tg .
      from process_iter [OF t(2) e, of s] c(1)
      have s1: "s1 = s \<lparr> g_ct_active := True, g_ct_last_cmd := a \<rparr>" by simp
      then have act: "g_ct_active s1" and cur: "g_ct_curr_thread s1 = g_ct_curr_thread s"
        by simp_all
      from d act obtain s2 out2 where
        r: "ct_on_access h s1 a n True = Some (s2, out2)"
           "ct_on_store h s a n = Some (s2, out1 @ out2)"
        by auto
      have "out2 = [] \<and>
            (\<forall>i<unat n. owner_of s2 (a + of_nat i) = Some (ucast (g_ct_curr_thread s)))"
        if sz: "unat n \<le> 148" and b: "unat a + 148 < 2 ^ 64"
      proof -
        from tracked_command_store [OF c(2) l sz b, of h] r(1) have
          o: "out2 = []" and wf2: "ct_wf s2"
          and pk: "\<forall>b. peek_owner s2 b =
                (if \<exists>i<unat n. aliased (a + of_nat i) b then ucast (g_ct_curr_thread s1)
                 else peek_owner s1 b)"
          by auto
        have "owner_of s2 (a + of_nat i) = Some (ucast (g_ct_curr_thread s))" if "i < unat n" for i
        proof -
          from that have "\<exists>j<unat n. aliased (a + of_nat j) (a + of_nat i)"
            by (auto simp: aliased_def)
          with pk show ?thesis by (simp add: owner_of_peek [OF wf2] cur)
        qed
        with o show ?thesis by blast
      qed
      with r act cur show ?thesis by (auto simp: trace_store_def)
    qed
    from c(1) l c(3) x y z show ?thesis by blast
  qed
  have th: "trace_store h s a n = Some (s \<lparr> g_ct_curr_thread := N + 1, g_ct_last_cmd := a \<rparr>, [])"
    if b: "bytes_at (mem h) a
       (le32 0x12345678 @ map of_char ''Valgrind command'' @ map of_char ''thrd'' @ le32 N)"
  proof -
    have e: "a + of_nat (4 :: nat) = a + 4" by simp
    from b [unfolded bytes_at_append [of _ _ "le32 0x12345678"] length_le32 e]
    have m: "bytes_at (mem h) a (le32 0x12345678)"
      and rest: "bytes_at (mem h) (a + 4)
        (map of_char ''Valgrind command'' @ map of_char ''thrd'' @ le32 N)"
      by blast+
    from load32_le32 [OF m] have mg: "stored_magic h a = MAGIC"
      by (simp add: stored_magic_def MAGIC_def)
    have l4: "length ''thrd'' = 4" by simp
    note c = command_layout [OF rest l4]
    from process_thrd [OF c(1,2), of s] have
      "ct_process_command h s a = Some (s \<lparr> g_ct_curr_thread := N + 1, g_ct_last_cmd := a \<rparr>, [])"
      unfolding c(3) .
    then show ?thesis using na by (simp add: trace_store_def ct_on_store_def mg)
  qed
  from ld md nr rc th show ?thesis by blast
qed

theorem C10_inactive_witness:
  "\<not> bytes_at (mem plain_host) 0x3000 (le32 0x12345678 @ map of_char ''Valgrind command'') \<and>
   bytes_at (mem (cmd_host 0x5000 ''thrd'' [7, 1, 0, 0])) 0x5000
     (le32 0x12345678 @ map of_char ''Valgrind command'' @ map of_char ''thrd'' @ le32 0x107) \<and>
   bytes_at (mem (cmd_host 0x5000 ''iter'' [0, 0, 0, 0])) 0x5000
     (le32 0x12345678 @ map of_char ''Valgrind command'') \<and>
   tagged_command (cmd_host 0x5000 ''iter'' [0, 0, 0, 0]) 0x5000 ''iter'' \<and>
   (\<exists>s out0. run_events (ct_init False)
       [Event_Dw (cmd_host 0x1000 ''thrd'' [0, 0, 0, 0]) 0x1000 4,
        Event_Dw (cmd_host 0x1000 ''iter'' [0, 0, 0, 0]) 0x1000 4,
        Event_Dw plain_host 0x3000 1,
        Event_Dw (cmd_host 0x1000 ''done'' [0, 0, 0, 0]) 0x1000 4] = Some (s, out0) \<and>
      \<not> g_ct_active s \<and> g_ct_curr_thread s = 1 \<and>
      trace_load plain_host s 0x3000 1 = Some (s, []) \<and>
      trace_store plain_host s 0x3000 1 = Some (s, []) \<and>
      trace_modify plain_host s 0x3000 1 = Some (s, []) \<and>
      trace_store (cmd_host 0x5000 ''thrd'' [7, 1, 0, 0]) s 0x5000 4 =
        Some (s \<lparr> g_ct_curr_thread := 0x108, g_ct_last_cmd := 0x5000 \<rparr>, []) \<and>
      (\<exists>s1 s2. ct_process_command (cmd_host 0x5000 ''iter'' [0, 0, 0, 0]) s 0x5000 = Some (s1, []) \<and>
         g_ct_active s1 \<and>
         trace_store (cmd_host 0x5000 ''iter'' [0, 0, 0, 0]) s 0x5000 4 = Some (s2, []) \<and>
         owner_of s2 0x5000 = Some 1 \<and> owner_of s2 0x5003 = Some 1))"
proof -
  let ?hi = "cmd_host 0x5000 ''iter'' [0, 0, 0, 0]"
  let ?ht = "cmd_host 0x5000 ''thrd'' [7, 1, 0, 0]"
  have np: "\<not> bytes_at (mem plain_host) 0x3000 (le32 0x12345678 @ map of_char ''Valgrind command'')"
    unfolding recognized_iff by (simp add: stored_magic_def load32_def plain_host_def MAGIC_def)
  have e7: "le32 0x107 = [7, 1, 0, 0]" by (simp add: le32_def)
  have bt: "bytes_at (mem ?ht) 0x5000
     (le32 0x12345678 @ map of_char ''Valgrind command'' @ map of_char ''thrd'' @ le32 0x107)"
    unfolding e7 by (rule cmd_host_bytes) simp
  have tg: "tagged_command ?hi 0x5000 ''iter''" by (rule cmd_host_tagged) simp
  note rec = tagged_recognized [OF tg]
  have "\<exists>s out0. run_events (ct_init False)
       [Event_Dw (cmd_host 0x1000 ''thrd'' [0, 0, 0, 0]) 0x1000 4,
        Event_Dw (cmd_host 0x1000 ''iter'' [0, 0, 0, 0]) 0x1000 4,
        Event_Dw plain_host 0x3000 1,
        Event_Dw (cmd_host 0x1000 ''done'' [0, 0, 0, 0]) 0x1000 4] = Some (s, out0) \<and>
      \<not> g_ct_active s \<and> g_ct_curr_thread s = 1 \<and> \<not> clo_print_commands s"
    by (simp add: eval_defs upt_rec)
  then obtain s out0 where r: "run_events (ct_init False)
       [Event_Dw (cmd_host 0x1000 ''thrd'' [0, 0, 0, 0]) 0x1000 4,
        Event_Dw (cmd_host 0x1000 ''iter'' [0, 0, 0, 0]) 0x1000 4,
        Event_Dw plain_host 0x3000 1,
        Event_Dw (cmd_host 0x1000 ''done'' [0, 0, 0, 0]) 0x1000 4] = Some (s, out0)"
    and f: "\<not> g_ct_active s" "g_ct_curr_thread s = 1" "\<not> clo_print_commands s"
    by blast
  have reach: "reachable s" by (rule run_events_reachable [OF reachable_init r])
  note t = C10_inactive [OF reach f(1)]
  from t [of plain_host "0x3000" 1] np have
    p: "trace_load plain_host s 0x3000 1 = Some (s, [])"
       "trace_store plain_host s 0x3000 1 = Some (s, [])"
       "trace_modify plain_host s 0x3000 1 = Some (s, [])"
    by simp_all
  from t [of ?ht "0x5000" 4 "0x107"] bt have
    th: "trace_store ?ht s 0x5000 4 =
        Some (s \<lparr> g_ct_curr_thread := 0x108, g_ct_last_cmd := 0x5000 \<rparr>, [])"
    by simp
  from tg have ti: "ct_str_is (mem ?hi) (const_magic 0x5000) CONST_MAGIC"
    "ct_str_is (mem ?hi) (payload 0x5000) ''iter''"
    unfolding tagged_command_iff by blast+
  from process_iter [OF ti, of s] f(3) have
    pi: "ct_process_command ?hi s 0x5000 = Some (s \<lparr> g_ct_active := True, g_ct_last_cmd := 0x5000 \<rparr>, [])"
    by simp
  from t [of ?hi "0x5000" 4 0] rec obtain s1 out1 where
    c: "ct_process_command ?hi s 0x5000 = Some (s1, out1)"
    and i: "tagged_command ?hi 0x5000 ''iter'' \<longrightarrow>
             g_ct_active s1 \<and> g_ct_curr_thread s1 = g_ct_curr_thread s \<and>
             (\<exists>s2 out2. ct_on_access ?hi s1 0x5000 4 True = Some (s2, out2) \<and>
                trace_store ?hi s 0x5000 4 = Some (s2, out1 @ out2) \<and>
                (unat (4 :: SizeT) \<le> 148 \<and> unat (0x5000 :: Addr) + 148 < 2 ^ 64 \<longrightarrow>
                   out2 = [] \<and>
                   (\<forall>i<unat (4 :: SizeT). owner_of s2 (0x5000 + of_nat i) =
                      Some (ucast (g_ct_curr_thread s)))))"
    by blast
  from c pi have o1: "out1 = []" by simp
  from i tg obtain s2 out2 where
    a: "g_ct_active s1"
       "trace_store ?hi s 0x5000 4 = Some (s2, out1 @ out2)"
       "unat (4 :: SizeT) \<le> 148 \<and> unat (0x5000 :: Addr) + 148 < 2 ^ 64 \<longrightarrow>
          out2 = [] \<and>
          (\<forall>i<unat (4 :: SizeT). owner_of s2 (0x5000 + of_nat i) = Some (ucast (g_ct_curr_thread s)))"
    by blast
  from a(3) have o: "out2 = []" and w: "\<forall>i<4. owner_of s2 (0x5000 + of_nat i) = Some 1"
    by (simp_all add: f(2))
  from w [rule_format, of 0] w [rule_format, of 3]
  have w2: "owner_of s2 0x5000 = Some 1" "owner_of s2 0x5003 = Some 1" by simp_all
  from a(2) o o1 have ts: "trace_store ?hi s 0x5000 4 = Some (s2, [])" by simp
  from c o1 have c': "ct_process_command ?hi s 0x5000 = Some (s1, [])" by simp
  from np bt rec tg r f(1,2) p th c' a(1) ts w2 show ?thesis by blast
qed

text \<open>
  C10 as stated fails: while \<open>active\<close> is false, the store of an \<open>end_for\<close> command changes
  the owner of \<open>0x3000\<close> from 1 to 0, and the store of an \<open>iter\<close> command changes the owner of
  the first byte it writes from 0 to 1.
\<close>

theorem C10_inactive_store_counterexample:
  "\<exists>s out0 s' s''. run_events (ct_init False)
       [Event_Dw (cmd_host 0x1000 ''thrd'' [0, 0, 0, 0]) 0x1000 4,
        Event_Dw (cmd_host 0x1000 ''iter'' [0, 0, 0, 0]) 0x1000 4,
        Event_Dw plain_host 0x3000 1,
        Event_Dw (cmd_host 0x1000 ''done'' [0, 0, 0, 0]) 0x1000 4] = Some (s, out0) \<and>
      \<not> g_ct_active s \<and>
      owner_of s 0x3000 = Some 1 \<and> owner_of s 0x5000 = Some 0 \<and>
      trace_store (cmd_host 0x2000 ''end_for'' [0]) s 0x2000 4 = Some (s', []) \<and>
      owner_of s' 0x3000 = Some 0 \<and>
      trace_store (cmd_host 0x5000 ''iter'' [0, 0, 0, 0]) s 0x5000 4 = Some (s'', []) \<and>
      owner_of s'' 0x5000 = Some 1"
  by (simp add: eval_defs upt_rec ct_clear_pagetab_def free_pagetabs_L2.simps free_pagetabs_L1.simps
      free_pages.simps)

end
